theory Spec2Isabelle
  imports Main "HOL-Library.AList"
begin

section \<open>JavaScript values that reach the engine\<close>

text \<open>
  The engine of \<^verbatim>\<open>src/index.js\<close> is one closure over four stores. Its entry points
  take arbitrary JavaScript values, test them with \<^verbatim>\<open>isString\<close>, \<^verbatim>\<open>isFunction\<close> and
  \<^verbatim>\<open>isRegExp\<close>, and either return, or raise where a method is read from a value that does
  not have it. The topic handed to \<^verbatim>\<open>publish\<close> and \<^verbatim>\<open>hasSubscribers\<close> is a string, as
  their interface says.

  A JavaScript string is a sequence of 16-bit code units. A code unit is held as the
  integer it stands for, from 0 to 65535; the engine compares code units and computes
  nothing with them, and what is proved of strings is proved of all sequences of integers.
  \<open>js\<close> writes a string from a literal.
\<close>

type_synonym code_unit = int

type_synonym jsstring = "code_unit list"

definition ch :: "char \<Rightarrow> code_unit" where
  "ch c = of_char c"

definition js :: "string \<Rightarrow> jsstring" where
  "js s = map ch s"

datatype error = TypeError | SyntaxError | UserError

text \<open>How a call ends: with a value, or with a raised error.\<close>

datatype 'a completion = Return 'a | Throw error

text \<open>A scope is \<^verbatim>\<open>undefined\<close> for the root API and a fresh \<^verbatim>\<open>Symbol('Isolated')\<close>
  for each \<^verbatim>\<open>isolate()\<close>.\<close>

datatype scope = NoScope | Isolated nat

text \<open>
  Function values are compared by reference in JavaScript, so each one carries the number
  that stands for its identity. Three kinds of function reach the stores:
  \<^item> \<open>UserFn n\<close>: a function the caller wrote;
  \<^item> \<open>TokenFn n scope key callback\<close>: the closure \<^verbatim>\<open>token\<close> made by
    \<^verbatim>\<open>createSubscriptionToken(scope, subscriptionKey, callback)\<close>, with the three
    variables it captures;
  \<^item> \<open>OnceFn n scope key callback\<close>: the arrow function that \<^verbatim>\<open>subscribeOnce\<close> hands
    to \<^verbatim>\<open>subscribe\<close>. It captures \<^verbatim>\<open>callback\<close> and the variable
    \<^verbatim>\<open>subscriptionToken\<close>; that token is the one \<^verbatim>\<open>subscribe\<close> creates for this
    very wrapper, so it is determined by \<open>n\<close>, \<open>scope\<close> and \<open>key\<close>.
\<close>

datatype fn =
    UserFn nat
  | TokenFn nat scope jsstring fn
  | OnceFn nat scope jsstring fn

text \<open>A subscription token, as the stores hold it.\<close>

datatype token = Token (tid: nat) (tscope: scope) (tkey: jsstring) (tcb: fn)

fun token_fn :: "token \<Rightarrow> fn" where
  "token_fn (Token n sc k cb) = TokenFn n sc k cb"

fun fn_token :: "fn \<Rightarrow> token option" where
  "fn_token (TokenFn n sc k cb) = Some (Token n sc k cb)"
| "fn_token _ = None"

section \<open>Regular expressions\<close>

text \<open>
  The pattern language is modelled for the fragment made of the anchors \<^verbatim>\<open>^\<close> and
  \<^verbatim>\<open>$\<close>, the wildcard \<^verbatim>\<open>.\<close>, literal characters, identity escapes \<^verbatim>\<open>\c\<close> of a
  character that is neither a letter, a digit nor \<^verbatim>\<open>_\<close>, and the quantifiers \<^verbatim>\<open>*\<close>,
  \<^verbatim>\<open>+\<close>, \<^verbatim>\<open>?\<close> on one such atom. A term keeps the spelling of the source (\<open>Lit\<close>
  against \<open>Esc\<close>), so that \<^verbatim>\<open>toString()\<close> can be read back from it.
\<close>

datatype rx_atom = Lit code_unit | Esc code_unit | Dot

datatype rx_quant = QOne | QStar | QPlus | QOpt

datatype rx_term = Bol | Eol | Atom rx_atom rx_quant

text \<open>
  A \<^verbatim>\<open>RegExp\<close> object: the terms of its source, the flags \<^verbatim>\<open>g\<close> and \<^verbatim>\<open>y\<close>, and
  the property \<^verbatim>\<open>lastIndex\<close>, which a match of a pattern with one of these flags reads
  and writes. The engine keeps the object the caller subscribed with, so the registry holds
  its \<^verbatim>\<open>lastIndex\<close> too. The other flags are outside the fragment.
\<close>

datatype regexp =
  RegExp (rx_terms: "rx_term list") (global: bool) (sticky: bool) (lastIndex: nat)

text \<open>Writing \<^verbatim>\<open>lastIndex\<close>.\<close>

definition set_lastIndex :: "nat \<Rightarrow> regexp \<Rightarrow> regexp" where
  "set_lastIndex n r = RegExp (rx_terms r) (global r) (sticky r) n"

definition backslash :: code_unit where
  "backslash = 0x5C"

definition slash :: code_unit where
  "slash = 0x2F"

text \<open>The syntax characters of the pattern language.\<close>

definition rx_syntax :: "code_unit list" where
  "rx_syntax = js ''^$'' @ [backslash] @ js ''.*+?()[]{}|''"

definition rx_alnum :: "code_unit \<Rightarrow> bool" where
  "rx_alnum c = (let n = c in
     (48 \<le> n \<and> n \<le> 57) \<or> (65 \<le> n \<and> n \<le> 90) \<or> (97 \<le> n \<and> n \<le> 122) \<or> n = 95)"

text \<open>
  \<^verbatim>\<open>new RegExp(source)\<close>: the source is read term by term, and the object has no flag
  and \<^verbatim>\<open>lastIndex\<close> 0. \<open>None\<close> stands for a source outside the fragment, which
  includes the sources of these forms that JavaScript rejects with a \<^verbatim>\<open>SyntaxError\<close> (a
  quantifier with nothing to repeat, a lone backslash, an unbalanced bracket).
\<close>

fun rx_quantifier :: "jsstring \<Rightarrow> rx_quant \<times> jsstring" where
  "rx_quantifier [] = (QOne, [])"
| "rx_quantifier (q # qs) =
     (if q = ch CHR ''*'' then (QStar, qs)
      else if q = ch CHR ''+'' then (QPlus, qs)
      else if q = ch CHR ''?'' then (QOpt, qs)
      else (QOne, q # qs))"

fun rx_atom_of :: "jsstring \<Rightarrow> (rx_atom \<times> jsstring) option" where
  "rx_atom_of [] = None"
| "rx_atom_of (c # cs) =
     (if c = backslash then
        (case cs of
           [] \<Rightarrow> None
         | d # ds \<Rightarrow> if rx_alnum d then None else Some (Esc d, ds))
      else if c = ch CHR ''.'' then Some (Dot, cs)
      else if c \<in> set rx_syntax then None
      else Some (Lit c, cs))"

lemma rx_quantifier_length: "rx_quantifier cs = (q, rest) \<Longrightarrow> length rest \<le> length cs"
  by (cases cs) (auto split: if_splits)

lemma rx_atom_of_length: "rx_atom_of cs = Some (a, rest) \<Longrightarrow> length rest < length cs"
  by (cases cs) (auto split: if_splits list.splits)

function rx_parse :: "jsstring \<Rightarrow> rx_term list option" where
  "rx_parse [] = Some []"
| "rx_parse (c # cs) =
     (if c = ch CHR ''^'' then map_option (Cons Bol) (rx_parse cs)
      else if c = ch CHR ''$'' then map_option (Cons Eol) (rx_parse cs)
      else
        (case rx_atom_of (c # cs) of
           None \<Rightarrow> None
         | Some (a, rest) \<Rightarrow>
             (case rx_quantifier rest of
                (q, rest') \<Rightarrow> map_option (Cons (Atom a q)) (rx_parse rest'))))"
  by pat_completeness auto
termination
proof (relation "measure length", goal_cases)
  case 1
  show ?case by simp
next
  case (2 c cs)
  show ?case by simp
next
  case (3 c cs)
  show ?case by simp
next
  case (4 c cs x2 a rest q rest')
  have "length rest < length (c # cs)"
    using 4 rx_atom_of_length [of "c # cs" a rest] by simp
  moreover have "length rest' \<le> length rest"
    using 4 rx_quantifier_length [of rest q rest'] by simp
  ultimately show ?case by simp
qed

definition new_RegExp :: "jsstring \<Rightarrow> regexp option" where
  "new_RegExp source = map_option (\<lambda>terms. RegExp terms False False 0) (rx_parse source)"

text \<open>
  \<^verbatim>\<open>regexp.source\<close>, \<^verbatim>\<open>regexp.flags\<close> and \<^verbatim>\<open>regexp.toString()\<close>. The source is
  printed so that it reads back as a pattern literal: a \<^verbatim>\<open>/\<close> gets a backslash, and a
  line terminator, escaped in the pattern or not, is printed as \<^verbatim>\<open>\n\<close>, \<^verbatim>\<open>\r\<close>,
  \<^verbatim>\<open>\u2028\<close> or \<^verbatim>\<open>\u2029\<close>. The source of the empty pattern is \<^verbatim>\<open>(?:)\<close>.
\<close>

definition line_terminator :: "code_unit \<Rightarrow> bool" where
  "line_terminator c = (c = 0x0A \<or> c = 0x0D \<or> c = 0x2028 \<or> c = 0x2029)"

definition line_terminator_source :: "code_unit \<Rightarrow> jsstring" where
  "line_terminator_source c =
     backslash #
       (if c = 0x0A then js ''n'' else if c = 0x0D then js ''r''
        else if c = 0x2028 then js ''u2028'' else js ''u2029'')"

fun rx_atom_source :: "rx_atom \<Rightarrow> jsstring" where
  "rx_atom_source (Lit c) =
     (if line_terminator c then line_terminator_source c
      else if c = slash then [backslash, c] else [c])"
| "rx_atom_source (Esc c) =
     (if line_terminator c then line_terminator_source c else [backslash, c])"
| "rx_atom_source Dot = js ''.''"

fun rx_quant_source :: "rx_quant \<Rightarrow> jsstring" where
  "rx_quant_source QOne = []"
| "rx_quant_source QStar = js ''*''"
| "rx_quant_source QPlus = js ''+''"
| "rx_quant_source QOpt = js ''?''"

fun rx_term_source :: "rx_term \<Rightarrow> jsstring" where
  "rx_term_source Bol = js ''^''"
| "rx_term_source Eol = js ''$''"
| "rx_term_source (Atom a q) = rx_atom_source a @ rx_quant_source q"

definition rx_source :: "regexp \<Rightarrow> jsstring" where
  "rx_source r =
     (if rx_terms r = [] then js ''(?:)'' else concat (map rx_term_source (rx_terms r)))"

definition rx_flags :: "regexp \<Rightarrow> jsstring" where
  "rx_flags r = (if global r then js ''g'' else []) @ (if sticky r then js ''y'' else [])"

definition rx_toString :: "regexp \<Rightarrow> jsstring" where
  "rx_toString r = slash # rx_source r @ slash # rx_flags r"

text \<open>
  Matching at one position. \<open>rx_end r b t\<close> is the number of code units that the match
  of the terms \<open>r\<close> at the start of \<open>t\<close> takes, where \<open>b\<close> says that \<open>t\<close> is the whole
  input (position 0), or \<open>None\<close> when they do not match there. The quantifiers are greedy
  and give back what the rest of the pattern needs. The wildcard does not match a line
  terminator; \<^verbatim>\<open>$\<close> matches at the end of the input only and \<^verbatim>\<open>^\<close> at its start only
  (no \<^verbatim>\<open>m\<close> flag).
\<close>

fun rx_atom_ok :: "rx_atom \<Rightarrow> code_unit \<Rightarrow> bool" where
  "rx_atom_ok (Lit c) x = (x = c)"
| "rx_atom_ok (Esc c) x = (x = c)"
| "rx_atom_ok Dot x = (\<not> line_terminator x)"

fun rx_end :: "rx_term list \<Rightarrow> bool \<Rightarrow> jsstring \<Rightarrow> nat option" where
  "rx_end [] b t = Some 0"
| "rx_end (Bol # r) b t = (if b then rx_end r b t else None)"
| "rx_end (Eol # r) b t = (if t = [] then rx_end r b t else None)"
| "rx_end (Atom a QOne # r) b [] = None"
| "rx_end (Atom a QOne # r) b (x # xs) =
     (if rx_atom_ok a x then map_option Suc (rx_end r False xs) else None)"
| "rx_end (Atom a QOpt # r) b [] = rx_end r b []"
| "rx_end (Atom a QOpt # r) b (x # xs) =
     (case (if rx_atom_ok a x then rx_end r False xs else None) of
        Some n \<Rightarrow> Some (Suc n)
      | None \<Rightarrow> rx_end r b (x # xs))"
| "rx_end (Atom a QStar # r) b [] = rx_end r b []"
| "rx_end (Atom a QStar # r) b (x # xs) =
     (case (if rx_atom_ok a x then rx_end (Atom a QStar # r) False xs else None) of
        Some n \<Rightarrow> Some (Suc n)
      | None \<Rightarrow> rx_end r b (x # xs))"
| "rx_end (Atom a QPlus # r) b [] = None"
| "rx_end (Atom a QPlus # r) b (x # xs) =
     (if rx_atom_ok a x then map_option Suc (rx_end (Atom a QStar # r) False xs) else None)"

text \<open>The pattern matches at some position of the input, the first one included.\<close>

fun rx_from :: "rx_term list \<Rightarrow> bool \<Rightarrow> jsstring \<Rightarrow> bool" where
  "rx_from r b [] = (rx_end r b [] \<noteq> None)"
| "rx_from r b (x # xs) = (rx_end r b (x # xs) \<noteq> None \<or> rx_from r False xs)"

text \<open>
  \<^verbatim>\<open>string.match(regexp)\<close>: whether the result is truthy, and the object after the call.
  \<^item> With the flag \<^verbatim>\<open>g\<close> the call sets \<^verbatim>\<open>lastIndex\<close> to 0 and collects the matches one
    after the other; the search that ends the collection fails and leaves \<^verbatim>\<open>lastIndex\<close>
    0. The result is \<^verbatim>\<open>null\<close> when the first search fails: from position 0 on, or at
    position 0 only for a pattern that is sticky too.
  \<^item> With the flag \<^verbatim>\<open>y\<close> alone the pattern is tried at the position \<^verbatim>\<open>lastIndex\<close> and
    nowhere else. A match moves \<^verbatim>\<open>lastIndex\<close> to its end; a failure, and a
    \<^verbatim>\<open>lastIndex\<close> beyond the input, set it to 0.
  \<^item> Without either flag the search starts at position 0 and \<^verbatim>\<open>lastIndex\<close> is neither
    read nor written.
\<close>

definition rx_match :: "regexp \<Rightarrow> jsstring \<Rightarrow> bool \<times> regexp" where
  "rx_match r input =
     (if global r then
        (if sticky r then rx_end (rx_terms r) True input \<noteq> None
         else rx_from (rx_terms r) True input,
         set_lastIndex 0 r)
      else if sticky r then
        (if length input < lastIndex r then (False, set_lastIndex 0 r)
         else
           (case rx_end (rx_terms r) (lastIndex r = 0) (drop (lastIndex r) input) of
              None \<Rightarrow> (False, set_lastIndex 0 r)
            | Some n \<Rightarrow> (True, set_lastIndex (lastIndex r + n) r)))
      else (rx_from (rx_terms r) True input, r))"

section \<open>Topic specifiers\<close>

datatype jsval = Undefined | Null | Num int | Str jsstring | Rx regexp | Fn fn

definition isString :: "jsval \<Rightarrow> bool" where
  "isString v = (case v of Str _ \<Rightarrow> True | _ \<Rightarrow> False)"

definition isFunction :: "jsval \<Rightarrow> bool" where
  "isFunction v = (case v of Fn _ \<Rightarrow> True | _ \<Rightarrow> False)"

definition isRegExp :: "jsval \<Rightarrow> bool" where
  "isRegExp v = (case v of Rx _ \<Rightarrow> True | _ \<Rightarrow> False)"

text \<open>What \<^verbatim>\<open>!v\<close> and \<^verbatim>\<open>v ? a : b\<close> test.\<close>

definition truthy :: "jsval \<Rightarrow> bool" where
  "truthy v = (case v of
     Undefined \<Rightarrow> False | Null \<Rightarrow> False | Num n \<Rightarrow> n \<noteq> 0 | Str s \<Rightarrow> s \<noteq> []
   | Rx _ \<Rightarrow> True | Fn _ \<Rightarrow> True)"

text \<open>The characters of the class \<^verbatim>\<open>[-\\/\\^$+?.()|[\]{}\\*]\<close>.\<close>

definition regexpCharacters :: "code_unit list" where
  "regexpCharacters = js ''-'' @ [backslash, slash] @ js ''^$+?.()|[]{}*''"

text \<open>\<^verbatim>\<open>eventName.replace(/[...]/g, '\\$&')\<close>: a backslash before each such character.\<close>

fun escapeRegexpCharacters :: "jsstring \<Rightarrow> jsstring" where
  "escapeRegexpCharacters [] = []"
| "escapeRegexpCharacters (c # cs) =
     (if c \<in> set regexpCharacters then backslash # c # escapeRegexpCharacters cs
      else c # escapeRegexpCharacters cs)"

text \<open>
  \<^verbatim>\<open>isRegExp(eventName) ? eventName.toString() : escapeRegexpCharacters(eventName)\<close>.
  A value that is neither a pattern nor a string has no \<^verbatim>\<open>replace\<close> method.
\<close>

definition createSubscriptionKey :: "jsval \<Rightarrow> jsstring completion" where
  "createSubscriptionKey eventName =
     (case eventName of
        Rx r \<Rightarrow> Return (rx_toString r)
      | Str s \<Rightarrow> Return (escapeRegexpCharacters s)
      | _ \<Rightarrow> Throw TypeError)"

definition createSubscriptionPattern :: "jsval \<Rightarrow> regexp completion" where
  "createSubscriptionPattern eventName =
     (case eventName of
        Rx r \<Rightarrow> Return r
      | Str s \<Rightarrow>
          (case new_RegExp (js ''^'' @ escapeRegexpCharacters s @ js ''$'') of
             Some r \<Rightarrow> Return r
           | None \<Rightarrow> Throw SyntaxError)
      | _ \<Rightarrow> Throw TypeError)"

definition isValidEventName :: "jsval \<Rightarrow> bool" where
  "isValidEventName eventName = (isString eventName \<or> isRegExp eventName)"

section \<open>The stores\<close>

text \<open>
  A \<^verbatim>\<open>Map\<close> is an association list in insertion order: \<^verbatim>\<open>get\<close> is \<open>map_of\<close>,
  \<^verbatim>\<open>set\<close> is \<open>AList.update\<close> (a present key keeps its place, a new one goes last) and
  \<^verbatim>\<open>delete\<close> is \<open>AList.delete\<close>. A \<^verbatim>\<open>Set\<close> is a list in insertion order. An object
  held in a map and changed in place is written back under its key.
\<close>

definition set_add :: "'a \<Rightarrow> 'a list \<Rightarrow> 'a list" where
  "set_add x xs = (if x \<in> set xs then xs else xs @ [x])"

definition getOrCreateMapElement :: "('k \<times> 'v) list \<Rightarrow> 'k \<Rightarrow> 'v \<Rightarrow> 'v \<times> ('k \<times> 'v) list" where
  "getOrCreateMapElement m key factory =
     (case map_of m key of
        Some elem \<Rightarrow> (elem, m)
      | None \<Rightarrow> (factory, AList.update key factory m))"

text \<open>A \<^verbatim>\<open>SubscriptionObject\<close>: \<^verbatim>\<open>subscriptionPattern\<close> and \<^verbatim>\<open>callbacks\<close>.\<close>

type_synonym subscription = "regexp \<times> (token \<times> fn) list"

text \<open>What a caller's function does when it is called with \<open>(topic, data)\<close>: it returns
  or it raises. It does not call the engine again.\<close>

type_synonym body = "nat \<Rightarrow> jsstring \<Rightarrow> jsval \<Rightarrow> unit completion"

text \<open>
  The state of one \<^verbatim>\<open>pubsubFactory()\<close> instance: the four stores of the closure, the
  delivery functions handed to \<^verbatim>\<open>setTimeout(deliveryFunction, 0)\<close> and not yet run (oldest
  first), the calls made to callers' functions so far, and the counters that number new
  closures and symbols.
\<close>

record state =
  subscriptions :: "(jsstring \<times> subscription) list"
  subscriptionTokens :: "token list"
  callbackSubscriptionTokens :: "(fn \<times> (jsstring \<times> token list) list) list"
  scopeSubscriptionTokens :: "(scope \<times> token list) list"
  timers :: "(fn list \<times> jsstring \<times> jsval) list"
  calls :: "(nat \<times> jsstring \<times> jsval) list"
  nextToken :: nat
  nextSymbol :: nat

definition pubsubFactory :: state where
  "pubsubFactory = \<lparr>subscriptions = [], subscriptionTokens = [],
     callbackSubscriptionTokens = [], scopeSubscriptionTokens = [], timers = [], calls = [],
     nextToken = 0, nextSymbol = 0\<rparr>"

subsection \<open>\<^verbatim>\<open>subscriptions\<close>\<close>

definition subscriptions_add ::
  "jsstring \<Rightarrow> regexp \<Rightarrow> token \<Rightarrow> fn \<Rightarrow> (jsstring \<times> subscription) list \<Rightarrow> (jsstring \<times> subscription) list"
where
  "subscriptions_add subscriptionKey subscriptionPattern subscriptionToken callback store =
     (case getOrCreateMapElement store subscriptionKey (subscriptionPattern, []) of
        ((pattern, callbacks), store') \<Rightarrow>
          AList.update subscriptionKey
            (pattern, AList.update subscriptionToken callback callbacks) store')"

definition subscriptions_has :: "jsstring \<Rightarrow> (jsstring \<times> subscription) list \<Rightarrow> bool" where
  "subscriptions_has subscriptionKey store = (map_of store subscriptionKey \<noteq> None)"

definition subscriptions_delete ::
  "jsstring \<Rightarrow> token \<Rightarrow> (jsstring \<times> subscription) list \<Rightarrow> (jsstring \<times> subscription) list"
where
  "subscriptions_delete subscriptionKey subscriptionToken store =
     (case map_of store subscriptionKey of
        None \<Rightarrow> store
      | Some (pattern, callbacks) \<Rightarrow>
          (let callbacks' = AList.delete subscriptionToken callbacks in
           if callbacks' = [] then AList.delete subscriptionKey store
           else AList.update subscriptionKey (pattern, callbacks') store))"

subsection \<open>\<^verbatim>\<open>callbackSubscriptionTokens\<close>\<close>

definition callbackSubscriptionTokens_add ::
  "fn \<Rightarrow> jsstring \<Rightarrow> token \<Rightarrow> (fn \<times> (jsstring \<times> token list) list) list
     \<Rightarrow> (fn \<times> (jsstring \<times> token list) list) list"
where
  "callbackSubscriptionTokens_add callback subscriptionKey subscriptionToken store =
     (case getOrCreateMapElement store callback [] of
        (callbackSubscriptions, store') \<Rightarrow>
          (case getOrCreateMapElement callbackSubscriptions subscriptionKey [] of
             (callbackTokens, callbackSubscriptions') \<Rightarrow>
               AList.update callback
                 (AList.update subscriptionKey (set_add subscriptionToken callbackTokens)
                    callbackSubscriptions')
                 store'))"

definition callbackSubscriptionTokens_delete ::
  "fn \<Rightarrow> jsstring \<Rightarrow> token \<Rightarrow> (fn \<times> (jsstring \<times> token list) list) list
     \<Rightarrow> (fn \<times> (jsstring \<times> token list) list) list"
where
  "callbackSubscriptionTokens_delete callback subscriptionKey subscriptionToken store =
     (case map_of store callback of
        None \<Rightarrow> store
      | Some callbackSubscriptions \<Rightarrow>
          (let callbackSubscriptions' =
             (case map_of callbackSubscriptions subscriptionKey of
                None \<Rightarrow> callbackSubscriptions
              | Some callbackTokens \<Rightarrow>
                  (let callbackTokens' = removeAll subscriptionToken callbackTokens in
                   if callbackTokens' = [] then AList.delete subscriptionKey callbackSubscriptions
                   else AList.update subscriptionKey callbackTokens' callbackSubscriptions))
           in if callbackSubscriptions' = [] then AList.delete callback store
              else AList.update callback callbackSubscriptions' store))"

subsection \<open>\<^verbatim>\<open>scopeSubscriptionTokens\<close>\<close>

definition scopeSubscriptionTokens_add ::
  "scope \<Rightarrow> token \<Rightarrow> (scope \<times> token list) list \<Rightarrow> (scope \<times> token list) list"
where
  "scopeSubscriptionTokens_add scope subscriptionToken store =
     (case getOrCreateMapElement store scope [] of
        (tokens, store') \<Rightarrow> AList.update scope (set_add subscriptionToken tokens) store')"

text \<open>
  \<^verbatim>\<open>store.delete(tokens)\<close>: the argument is the \<^verbatim>\<open>Set\<close> that was just emptied, and the keys
  of this store are scopes (\<^verbatim>\<open>undefined\<close> or a symbol), so no entry has that key and the
  store stays as it is.
\<close>

definition delete_by_set :: "token list \<Rightarrow> (scope \<times> token list) list \<Rightarrow> (scope \<times> token list) list" where
  "delete_by_set tokens store = store"

definition scopeSubscriptionTokens_delete ::
  "scope \<Rightarrow> token \<Rightarrow> (scope \<times> token list) list \<Rightarrow> (scope \<times> token list) list"
where
  "scopeSubscriptionTokens_delete scope subscriptionToken store =
     (case map_of store scope of
        None \<Rightarrow> store
      | Some tokens \<Rightarrow>
          (let tokens' = removeAll subscriptionToken tokens;
               store' = AList.update scope tokens' store
           in if tokens' = [] then delete_by_set tokens' store' else store'))"

section \<open>The engine\<close>

text \<open>Calling a token: the body of \<^verbatim>\<open>token\<close> in \<^verbatim>\<open>createSubscriptionToken\<close>.\<close>

definition token_call :: "token \<Rightarrow> state \<Rightarrow> bool \<times> state" where
  "token_call token st =
     (case token of Token n scope subscriptionKey callback \<Rightarrow>
        if \<not> subscriptions_has subscriptionKey (subscriptions st) then (False, st)
        else
          (True,
           st\<lparr>subscriptions := subscriptions_delete subscriptionKey token (subscriptions st),
              subscriptionTokens := removeAll token (subscriptionTokens st),
              callbackSubscriptionTokens :=
                callbackSubscriptionTokens_delete callback subscriptionKey token
                  (callbackSubscriptionTokens st),
              scopeSubscriptionTokens :=
                scopeSubscriptionTokens_delete scope token (scopeSubscriptionTokens st)\<rparr>))"

definition createSubscriptionToken :: "scope \<Rightarrow> jsstring \<Rightarrow> fn \<Rightarrow> state \<Rightarrow> token \<times> state" where
  "createSubscriptionToken scope subscriptionKey callback st =
     (Token (nextToken st) scope subscriptionKey callback, st\<lparr>nextToken := Suc (nextToken st)\<rparr>)"

text \<open>\<^verbatim>\<open>currentTokens.reduce((result, token) => token() || result, false)\<close>.\<close>

fun reduce_tokens :: "token list \<Rightarrow> bool \<Rightarrow> state \<Rightarrow> bool \<times> state" where
  "reduce_tokens [] result st = (result, st)"
| "reduce_tokens (token # tokens) result st =
     (case token_call token st of (r, st') \<Rightarrow> reduce_tokens tokens (r \<or> result) st')"

text \<open>
  \<^verbatim>\<open>getCallbacksForEventName\<close>: \<^verbatim>\<open>subscriptions.forEach\<close> visits the entries in
  insertion order and matches the topic against the pattern object of each, which can
  write the \<^verbatim>\<open>lastIndex\<close> of that object. The result is the callbacks of the entries
  that matched, and the registry is left with the pattern objects as the matches left them.
\<close>

fun matchingCallbacks ::
  "jsstring \<Rightarrow> (jsstring \<times> subscription) list \<Rightarrow> fn list \<times> (jsstring \<times> subscription) list"
where
  "matchingCallbacks eventName [] = ([], [])"
| "matchingCallbacks eventName ((key, subscriptionPattern, callbacks) # store) =
     (case rx_match subscriptionPattern eventName of
        (matched, subscriptionPattern') \<Rightarrow>
          (case matchingCallbacks eventName store of
             (found, store') \<Rightarrow>
               ((if matched then map snd callbacks else []) @ found,
                (key, subscriptionPattern', callbacks) # store')))"

definition getCallbacksForEventName :: "jsstring \<Rightarrow> state \<Rightarrow> fn list \<times> state" where
  "getCallbacksForEventName eventName st =
     (case matchingCallbacks eventName (subscriptions st) of
        (found, store') \<Rightarrow> (found, st\<lparr>subscriptions := store'\<rparr>))"

text \<open>
  \<^verbatim>\<open>subscribe\<close>. The test \<^verbatim>\<open>!isFunction(callback) || !isValidEventName(eventName)\<close> is
  the distinction on \<open>callback\<close> followed by the test of \<open>eventName\<close>; both failures
  return \<^verbatim>\<open>null\<close> before anything is computed or stored.
\<close>

definition subscribe :: "scope \<Rightarrow> jsval \<Rightarrow> jsval \<Rightarrow> state \<Rightarrow> token option completion \<times> state" where
  "subscribe scope eventName callback st =
     (case callback of
        Fn cb \<Rightarrow>
          if \<not> isValidEventName eventName then (Return None, st)
          else
            (case createSubscriptionKey eventName of
               Throw e \<Rightarrow> (Throw e, st)
             | Return subscriptionKey \<Rightarrow>
                 (case createSubscriptionPattern eventName of
                    Throw e \<Rightarrow> (Throw e, st)
                  | Return subscriptionPattern \<Rightarrow>
                      (case createSubscriptionToken scope subscriptionKey cb st of
                         (subscriptionToken, st1) \<Rightarrow>
                           (Return (Some subscriptionToken),
                            st1\<lparr>subscriptions :=
                                  subscriptions_add subscriptionKey subscriptionPattern
                                    subscriptionToken cb (subscriptions st1),
                                subscriptionTokens :=
                                  set_add subscriptionToken (subscriptionTokens st1),
                                callbackSubscriptionTokens :=
                                  callbackSubscriptionTokens_add cb subscriptionKey
                                    subscriptionToken (callbackSubscriptionTokens st1),
                                scopeSubscriptionTokens :=
                                  scopeSubscriptionTokens_add scope subscriptionToken
                                    (scopeSubscriptionTokens st1)\<rparr>))))
      | _ \<Rightarrow> (Return None, st))"

text \<open>\<^verbatim>\<open>hasSubscribers\<close>, with a topic or without one. With a topic it runs the
  matches, so it returns a state too.\<close>

definition hasSubscribers :: "jsstring option \<Rightarrow> state \<Rightarrow> bool \<times> state" where
  "hasSubscribers eventName st =
     (case eventName of
        Some name \<Rightarrow>
          (case getCallbacksForEventName name st of (callbacks, st') \<Rightarrow> (callbacks \<noteq> [], st'))
      | None \<Rightarrow> (subscriptions st \<noteq> [], st))"

text \<open>\<^verbatim>\<open>subscriptionTokens.has(eventName)\<close> and \<^verbatim>\<open>callbackSubscriptionTokens.has(callback)\<close>
  for an arbitrary value.\<close>

definition subscriptionTokens_has :: "fn \<Rightarrow> state \<Rightarrow> bool" where
  "subscriptionTokens_has f st =
     (case fn_token f of Some token \<Rightarrow> token \<in> set (subscriptionTokens st) | None \<Rightarrow> False)"

definition callbackSubscriptionTokens_get :: "jsval \<Rightarrow> state \<Rightarrow> (jsstring \<times> token list) list option" where
  "callbackSubscriptionTokens_get callback st =
     (case callback of Fn f \<Rightarrow> map_of (callbackSubscriptionTokens st) f | _ \<Rightarrow> None)"

text \<open>
  \<^verbatim>\<open>unsubscribe\<close> collects tokens in one of three ways, tried in this order: the argument
  is a live token; the argument is a function with an entry in the callback index (all the
  tokens of all its keys); the first argument is a topic specifier and the second has an
  entry in the callback index (the tokens under the key of the specifier). It then calls
  the tokens it collected.
\<close>

definition unsubscribe :: "jsval \<Rightarrow> jsval \<Rightarrow> state \<Rightarrow> bool completion \<times> state" where
  "unsubscribe eventName callback st =
     (case eventName of
        Fn f \<Rightarrow>
          (if subscriptionTokens_has f st then
             (case reduce_tokens (case fn_token f of Some token \<Rightarrow> [token] | None \<Rightarrow> []) False st of
                (r, st') \<Rightarrow> (Return r, st'))
           else
             (case callbackSubscriptionTokens_get eventName st of
                Some callbackSubscriptions \<Rightarrow>
                  (case reduce_tokens (concat (map snd callbackSubscriptions)) False st of
                     (r, st') \<Rightarrow> (Return r, st'))
              | None \<Rightarrow> (Return False, st)))
      | _ \<Rightarrow>
          (if isValidEventName eventName \<and> callbackSubscriptionTokens_get callback st \<noteq> None then
             (case createSubscriptionKey eventName of
                Throw e \<Rightarrow> (Throw e, st)
              | Return subscriptionKey \<Rightarrow>
                  (case callbackSubscriptionTokens_get callback st of
                     None \<Rightarrow> (Return False, st)
                   | Some callbackSubscriptions \<Rightarrow>
                       (case map_of callbackSubscriptions subscriptionKey of
                          Some callbackTokens \<Rightarrow>
                            (case reduce_tokens callbackTokens False st of
                               (r, st') \<Rightarrow> (Return r, st'))
                        | None \<Rightarrow> (Return False, st))))
           else (Return False, st)))"

definition scope_truthy :: "scope \<Rightarrow> bool" where
  "scope_truthy scope = (case scope of NoScope \<Rightarrow> False | Isolated _ \<Rightarrow> True)"

text \<open>
  \<^verbatim>\<open>unsubscribeAll\<close>. With a falsy \<open>eventName\<close> (so also with the empty string) it
  takes the tokens of the scope, or all tokens when the scope is \<^verbatim>\<open>undefined\<close>;
  \<^verbatim>\<open>scopeSubscriptionTokens.get(scope).values()\<close> reads \<^verbatim>\<open>values\<close> from \<^verbatim>\<open>undefined\<close>
  when the store has no entry for the scope. Otherwise it takes the tokens under the key of
  \<open>eventName\<close>, and of them, for a scope that is not \<^verbatim>\<open>undefined\<close>, those recorded for
  the scope (none when the scope has no entry).
\<close>

definition unsubscribeAll :: "scope \<Rightarrow> jsval \<Rightarrow> state \<Rightarrow> bool completion \<times> state" where
  "unsubscribeAll scope eventName st =
     (if \<not> truthy eventName then
        (if scope_truthy scope then
           (case map_of (scopeSubscriptionTokens st) scope of
              None \<Rightarrow> (Throw TypeError, st)
            | Some tokens \<Rightarrow>
                (case reduce_tokens tokens False st of (r, st') \<Rightarrow> (Return r, st')))
         else
           (case reduce_tokens (subscriptionTokens st) False st of (r, st') \<Rightarrow> (Return r, st')))
      else
        (case createSubscriptionKey eventName of
           Throw e \<Rightarrow> (Throw e, st)
         | Return subscriptionKey \<Rightarrow>
             (case map_of (subscriptions st) subscriptionKey of
                None \<Rightarrow> (Return False, st)
              | Some (pattern, callbacks) \<Rightarrow>
                  (let currentTokens = map fst callbacks;
                       currentTokens' =
                         (if scope_truthy scope then
                            (case map_of (scopeSubscriptionTokens st) scope of
                               Some scopeTokens \<Rightarrow>
                                 filter (\<lambda>token. token \<in> set scopeTokens) currentTokens
                             | None \<Rightarrow> [])
                          else currentTokens)
                   in case reduce_tokens currentTokens' False st of
                        (r, st') \<Rightarrow> (Return r, st')))))"

text \<open>
  Calling a stored callback with \<open>(topic, data)\<close>. A caller's function is recorded in
  \<open>calls\<close> and ends as its body says. A token ignores its arguments. The wrapper of
  \<^verbatim>\<open>subscribeOnce\<close> runs \<^verbatim>\<open>unsubscribe(subscriptionToken); callback(...args)\<close>.
\<close>

primrec invoke :: "body \<Rightarrow> fn \<Rightarrow> jsstring \<Rightarrow> jsval \<Rightarrow> state \<Rightarrow> unit completion \<times> state" where
  "invoke B (UserFn n) topic data st =
     (B n topic data, st\<lparr>calls := calls st @ [(n, topic, data)]\<rparr>)"
| "invoke B (TokenFn n scope key cb) topic data st =
     (Return (), snd (token_call (Token n scope key cb) st))"
| "invoke B (OnceFn n scope key cb) topic data st =
     (case unsubscribe (Fn (TokenFn n scope key (OnceFn n scope key cb))) Undefined st of
        (Throw e, st') \<Rightarrow> (Throw e, st')
      | (Return r, st') \<Rightarrow> invoke B cb topic data st')"

text \<open>\<^verbatim>\<open>try { callback(eventName, data); } catch (e) { }\<close> inside \<^verbatim>\<open>callbacks.forEach\<close>.
  \<open>forEach\<close> stops at the first error that its visitor lets out.\<close>

definition try_catch :: "(state \<Rightarrow> unit completion \<times> state) \<Rightarrow> state \<Rightarrow> unit completion \<times> state" where
  "try_catch f st = (case f st of (Throw e, st') \<Rightarrow> (Return (), st') | (Return r, st') \<Rightarrow> (Return (), st'))"

fun forEach :: "('a \<Rightarrow> state \<Rightarrow> unit completion \<times> state) \<Rightarrow> 'a list \<Rightarrow> state \<Rightarrow> unit completion \<times> state" where
  "forEach visitor [] st = (Return (), st)"
| "forEach visitor (x # xs) st =
     (case visitor x st of
        (Throw e, st') \<Rightarrow> (Throw e, st')
      | (Return r, st') \<Rightarrow> forEach visitor xs st')"

definition createDeliveryFunction ::
  "body \<Rightarrow> fn list \<Rightarrow> jsstring \<Rightarrow> jsval \<Rightarrow> state \<Rightarrow> unit completion \<times> state"
where
  "createDeliveryFunction B callbacks eventName data =
     forEach (\<lambda>callback. try_catch (invoke B callback eventName data)) callbacks"

definition publish :: "body \<Rightarrow> jsstring \<Rightarrow> jsval \<Rightarrow> bool \<Rightarrow> state \<Rightarrow> bool completion \<times> state" where
  "publish B eventName data sync st =
     (case getCallbacksForEventName eventName st of
        (callbacks, st1) \<Rightarrow>
          if callbacks = [] then (Return False, st1)
          else if sync then
            (case createDeliveryFunction B callbacks eventName data st1 of
               (Throw e, st') \<Rightarrow> (Throw e, st')
             | (Return r, st') \<Rightarrow> (Return True, st'))
          else (Return True, st1\<lparr>timers := timers st1 @ [(callbacks, eventName, data)]\<rparr>))"

text \<open>The host runs the delivery functions it was handed, oldest first. An error that one
  lets out goes to the host, not to the engine.\<close>

fun runTimers :: "body \<Rightarrow> (fn list \<times> jsstring \<times> jsval) list \<Rightarrow> state \<Rightarrow> state" where
  "runTimers B [] st = st"
| "runTimers B ((callbacks, eventName, data) # rest) st =
     runTimers B rest (snd (createDeliveryFunction B callbacks eventName data st))"

definition runAllTimers :: "body \<Rightarrow> state \<Rightarrow> state" where
  "runAllTimers B st = runTimers B (timers st) (st\<lparr>timers := []\<rparr>)"

text \<open>
  \<^verbatim>\<open>subscribeOnce\<close>. The wrapper is built before \<^verbatim>\<open>subscribe\<close> runs; the token it will
  name is the next one, under the key of \<open>eventName\<close>. When \<^verbatim>\<open>subscribe\<close> rejects
  \<open>eventName\<close> the wrapper is dropped, and the key written into it is never read.
\<close>

definition subscribeOnce :: "scope \<Rightarrow> jsval \<Rightarrow> jsval \<Rightarrow> state \<Rightarrow> token option completion \<times> state" where
  "subscribeOnce scope eventName callback st =
     (case callback of
        Fn cb \<Rightarrow>
          subscribe scope eventName
            (Fn (OnceFn (nextToken st) scope
                   (case createSubscriptionKey eventName of Return key \<Rightarrow> key | Throw e \<Rightarrow> [])
                   cb))
            st
      | _ \<Rightarrow> (Return None, st))"

definition isolate :: "state \<Rightarrow> scope \<times> state" where
  "isolate st = (Isolated (nextSymbol st), st\<lparr>nextSymbol := Suc (nextSymbol st)\<rparr>)"

section \<open>Runs used as examples\<close>

text \<open>Two bodies for the callers' functions: every function returns, and the function
  numbered 1 raises while the others return.\<close>

definition returns_normally :: body where
  "returns_normally = (\<lambda>n topic data. Return ())"


text \<open>The topics and callbacks of the registry, entry by entry.\<close>

definition subscribed_to :: "state \<Rightarrow> (jsstring \<times> fn list) list" where
  "subscribed_to st = map (\<lambda>(key, pattern, callbacks). (key, map snd callbacks)) (subscriptions st)"

text \<open>The state after \<^verbatim>\<open>subscribe('a', f0); subscribe('a', f1)\<close> on the root API.\<close>

definition two_on_one_key :: state where
  "two_on_one_key =
     snd (subscribe NoScope (Str (js ''a'')) (Fn (UserFn 1))
       (snd (subscribe NoScope (Str (js ''a'')) (Fn (UserFn 0)) pubsubFactory)))"

text \<open>The state after three subscriptions to \<^verbatim>\<open>'test'\<close> on the root API.\<close>

definition three_on_test :: state where
  "three_on_test =
     snd (subscribe NoScope (Str (js ''test'')) (Fn (UserFn 2))
       (snd (subscribe NoScope (Str (js ''test'')) (Fn (UserFn 1))
         (snd (subscribe NoScope (Str (js ''test'')) (Fn (UserFn 0)) pubsubFactory)))))"

text \<open>Two callbacks on the same two topics, one of the four subscriptions made through an
  isolated facade.\<close>

definition two_callbacks :: state where
  "two_callbacks =
     snd (subscribe NoScope (Str (js ''part2'')) (Fn (UserFn 1))
       (snd (subscribe NoScope (Str (js ''part1'')) (Fn (UserFn 1))
         (snd (subscribe (Isolated 0) (Str (js ''part2'')) (Fn (UserFn 0))
           (snd (subscribe NoScope (Str (js ''part1'')) (Fn (UserFn 0)) pubsubFactory)))))))"

text \<open>The state after \<^verbatim>\<open>t = subscribe('a', f0); subscribe('b', t)\<close>: the token of the
  first subscription is the callback of the second.\<close>

definition token_as_callback :: state where
  "token_as_callback =
     snd (subscribe NoScope (Str (js ''b'')) (Fn (TokenFn 0 NoScope (js ''a'') (UserFn 0)))
       (snd (subscribe NoScope (Str (js ''a'')) (Fn (UserFn 0)) pubsubFactory)))"

text \<open>One subscription on the root API, and two through one isolated facade, the second of
  them to the empty string.\<close>

definition mixed_scopes :: state where
  "mixed_scopes =
     snd (subscribe (Isolated 0) (Str []) (Fn (UserFn 2))
       (snd (subscribe (Isolated 0) (Str (js ''y'')) (Fn (UserFn 1))
         (snd (subscribe NoScope (Str (js ''x'')) (Fn (UserFn 0)) pubsubFactory)))))"

section \<open>Literal topics\<close>

text \<open>The term that a character of a literal topic becomes in the pattern of the topic,
  and the pattern object of the topic.\<close>

definition literal_term :: "code_unit \<Rightarrow> rx_term" where
  "literal_term c = Atom (if c \<in> set regexpCharacters then Esc c else Lit c) QOne"

definition literal_pattern :: "jsstring \<Rightarrow> regexp" where
  "literal_pattern s = RegExp (Bol # map literal_term s @ [Eol]) False False 0"

lemma regexpCharacters_not_alnum: "c \<in> set regexpCharacters \<Longrightarrow> \<not> rx_alnum c"
  by (auto simp: regexpCharacters_def rx_alnum_def backslash_def slash_def js_def ch_def)

lemma rx_syntax_escaped: "c \<in> set rx_syntax \<Longrightarrow> c \<in> set regexpCharacters"
  by (auto simp: regexpCharacters_def rx_syntax_def js_def)

lemma rx_quantifier_escaped:
  "rx_quantifier (escapeRegexpCharacters s @ js ''$'') = (QOne, escapeRegexpCharacters s @ js ''$'')"
  by (cases s) (auto simp: regexpCharacters_def backslash_def slash_def js_def ch_def)

lemma rx_parse_escaped:
  "rx_parse (escapeRegexpCharacters s @ js ''$'') = Some (map literal_term s @ [Eol])"
proof (induction s)
  case Nil
  show ?case by (simp add: js_def ch_def)
next
  case (Cons c s)
  show ?case
  proof (cases "c \<in> set regexpCharacters")
    case True
    then have "\<not> rx_alnum c" by (rule regexpCharacters_not_alnum)
    then show ?thesis
      using True Cons.IH rx_quantifier_escaped [of s]
      by (simp add: literal_term_def backslash_def ch_def)
  next
    case False
    then have "c \<notin> set rx_syntax" using rx_syntax_escaped by blast
    moreover have "c \<noteq> ch CHR ''^''" "c \<noteq> ch CHR ''$''" "c \<noteq> backslash" "c \<noteq> ch CHR ''.''"
      using False by (auto simp: regexpCharacters_def js_def ch_def backslash_def)
    ultimately show ?thesis
      using False Cons.IH rx_quantifier_escaped [of s]
      by (simp add: literal_term_def)
  qed
qed

lemma rx_end_literal_term:
  "rx_end (literal_term c # r) b t =
     (case t of [] \<Rightarrow> None | x # xs \<Rightarrow> if x = c then map_option Suc (rx_end r False xs) else None)"
  by (cases t) (simp_all add: literal_term_def)

lemma rx_end_literal:
  "rx_end (map literal_term s @ [Eol]) b t = (if t = s then Some (length s) else None)"
proof (induction s arbitrary: b t)
  case Nil
  show ?case by simp
next
  case (Cons c s)
  show ?case
    by (cases t) (auto simp: rx_end_literal_term Cons.IH)
qed

lemma rx_from_Bol_inside: "rx_from (Bol # r) False t = False"
  by (induction t) simp_all

lemma rx_from_Bol: "rx_from (Bol # r) True t = (rx_end r True t \<noteq> None)"
  by (cases t) (simp_all add: rx_from_Bol_inside)

text \<open>The \<^verbatim>\<open>RegExp\<close> constructor accepts the escaped source of every string.\<close>

lemma createSubscriptionPattern_Str: "createSubscriptionPattern (Str s) = Return (literal_pattern s)"
proof -
  have "rx_parse (js ''^'' @ escapeRegexpCharacters s @ js ''$'')
      = map_option (Cons Bol) (rx_parse (escapeRegexpCharacters s @ js ''$''))"
    by (simp add: js_def ch_def)
  then show ?thesis
    by (simp add: createSubscriptionPattern_def new_RegExp_def rx_parse_escaped literal_pattern_def)
qed

lemma createSubscriptionKey_Str: "createSubscriptionKey (Str s) = Return (escapeRegexpCharacters s)"
  by (simp add: createSubscriptionKey_def)

text \<open>The pattern object of a literal topic matches that topic and no other, and no match
  changes it.\<close>

lemma rx_match_literal: "rx_match (literal_pattern s) t = (t = s, literal_pattern s)"
  by (simp add: rx_match_def literal_pattern_def rx_from_Bol rx_end_literal)

section \<open>The pattern fragment on the repository's tests\<close>

text \<open>
  The patterns of \<^verbatim>\<open>tests/pubsub.test.js\<close> that lie in the fragment, with the topics
  and the answers the tests expect of \<^verbatim>\<open>hasSubscribers\<close>: \<^verbatim>\<open>/.*/\<close>, \<^verbatim>\<open>/.+/\<close>,
  \<^verbatim>\<open>/part1.part2/\<close>, \<^verbatim>\<open>/^part1.*/\<close>, \<^verbatim>\<open>/.*\.part3$/\<close> and
  \<^verbatim>\<open>/^part1\..+\.part3$/\<close>.
\<close>

definition matches :: "jsstring \<Rightarrow> jsstring \<Rightarrow> bool option" where
  "matches source topic = map_option (\<lambda>r. fst (rx_match r topic)) (new_RegExp source)"

lemma repository_pattern_tests:
  "map (matches (js ''.*'')) [js '''', js ''part1''] = [Some True, Some True]"
  "map (matches (js ''.+'')) [js '''', js ''part1''] = [Some False, Some True]"
  "map (matches (js ''part1.part2'')) [js ''part1.part2'', js ''part1*part2''] = [Some True, Some True]"
  "map (matches (js ''^part1.*''))
     [js ''part'', js ''part1'', js ''part1.part2'', js ''part1.part2.part3'', js ''prefix.part1'']
     = [Some False, Some True, Some True, Some True, Some False]"
  "map (matches (js ''.*'' @ [backslash] @ js ''.part3$''))
     [js ''part1'', js ''part3'', js ''.part3'', js ''part1.part2'', js ''part1.part2.part3'',
      js ''part1.part2part3'', js ''part1.part2.part3.part4'']
     = [Some False, Some False, Some True, Some False, Some True, Some False, Some False]"
  "map (matches (js ''^part1'' @ [backslash] @ js ''..+'' @ [backslash] @ js ''.part3$''))
     [js ''part1'', js ''part1.part3'', js ''part1.part2.part3'', js ''part1.part2part3'',
      js ''prefix.part1.part2.part3'', js ''part1.part2.part3.postfix'']
     = [Some False, Some False, Some True, Some False, Some False, Some False]"
  by code_simp+

text \<open>
  The keys of some pattern objects: the empty pattern, a pattern with a \<^verbatim>\<open>/\<close>, and
  patterns that hold a line terminator, escaped in their source or not.
\<close>

lemma pattern_keys:
  "rx_toString (RegExp [] False False 0) = js ''/(?:)/''"
  "rx_toString (RegExp [Atom (Lit slash) QPlus] False False 0) = js ''/'' @ [backslash] @ js ''/+/''"
  "rx_toString (RegExp [Atom (Lit 0x0A) QOne] True False 0) = js ''/'' @ [backslash] @ js ''n/g''"
  "rx_toString (RegExp [Atom (Esc 0x0A) QOne] True False 0) = js ''/'' @ [backslash] @ js ''n/g''"
  "rx_toString (RegExp [Atom (Lit 0x0D) QOne] True True 0) = js ''/'' @ [backslash] @ js ''r/gy''"
  "rx_toString (RegExp [Atom (Lit 0x2028) QStar] False True 3)
     = js ''/'' @ [backslash] @ js ''u2028*/y''"
  by code_simp+

text \<open>
  The flags on \<^verbatim>\<open>/a/\<close> and on \<^verbatim>\<open>/a*a/\<close>: a sticky pattern is tried at its
  \<^verbatim>\<open>lastIndex\<close> and moves it, a global one is searched from position 0 and ends at 0,
  and a pattern without flags leaves \<^verbatim>\<open>lastIndex\<close> alone.
\<close>

lemma pattern_flags:
  "rx_match (RegExp [Atom (Lit (ch CHR ''a'')) QOne] False True 0) (js ''ab'')
     = (True, RegExp [Atom (Lit (ch CHR ''a'')) QOne] False True 1)"
  "rx_match (RegExp [Atom (Lit (ch CHR ''a'')) QOne] False True 1) (js ''ab'')
     = (False, RegExp [Atom (Lit (ch CHR ''a'')) QOne] False True 0)"
  "rx_match (RegExp [Atom (Lit (ch CHR ''a'')) QOne] False True 3) (js ''a'')
     = (False, RegExp [Atom (Lit (ch CHR ''a'')) QOne] False True 0)"
  "rx_match (RegExp [Atom (Lit (ch CHR ''a'')) QOne] True False 5) (js ''ba'')
     = (True, RegExp [Atom (Lit (ch CHR ''a'')) QOne] True False 0)"
  "rx_match (RegExp [Atom (Lit (ch CHR ''a'')) QOne] True True 5) (js ''ba'')
     = (False, RegExp [Atom (Lit (ch CHR ''a'')) QOne] True True 0)"
  "rx_match (RegExp [Atom (Lit (ch CHR ''a'')) QOne] False False 5) (js ''ba'')
     = (True, RegExp [Atom (Lit (ch CHR ''a'')) QOne] False False 5)"
  "rx_match (RegExp [Atom (Lit (ch CHR ''a'')) QStar, Atom (Lit (ch CHR ''a'')) QOne] False True 0)
       (js ''aaab'')
     = (True, RegExp [Atom (Lit (ch CHR ''a'')) QStar, Atom (Lit (ch CHR ''a'')) QOne] False True 3)"
  by code_simp+

section \<open>Invalid arguments\<close>

text \<open>
  C7: when the callback is not a function, or the topic specifier is neither a string nor a
  pattern object, \<^verbatim>\<open>subscribe\<close> and \<^verbatim>\<open>subscribeOnce\<close> return \<^verbatim>\<open>null\<close>, raise nothing,
  and leave the whole state as it was.
\<close>

theorem invalid_subscribe_returns_null:
  assumes "\<not> isFunction callback \<or> \<not> isValidEventName eventName"
  shows "subscribe scope eventName callback st = (Return None, st)
       \<and> subscribeOnce scope eventName callback st = (Return None, st)"
  using assms
  by (cases callback) (auto simp: subscribe_def subscribeOnce_def isFunction_def)

theorem invalid_subscribe_returns_null_witness:
  "isValidEventName (Num 7) = False
   \<and> subscribe NoScope (Num 7) (Fn (UserFn 0)) two_on_one_key = (Return None, two_on_one_key)
   \<and> subscribeOnce NoScope (Num 7) (Fn (UserFn 0)) two_on_one_key = (Return None, two_on_one_key)
   \<and> isFunction (Str (js ''f'')) = False
   \<and> subscribe (Isolated 0) (Str (js ''test'')) (Str (js ''f'')) two_on_one_key = (Return None, two_on_one_key)
   \<and> subscribeOnce (Isolated 0) (Str (js ''test'')) (Str (js ''f'')) two_on_one_key = (Return None, two_on_one_key)"
proof -
  have 1: "\<not> isFunction (Fn (UserFn 0)) \<or> \<not> isValidEventName (Num 7)"
    by (simp add: isValidEventName_def isString_def isRegExp_def)
  have 2: "\<not> isFunction (Str (js ''f'')) \<or> \<not> isValidEventName (Str (js ''test''))"
    by (simp add: isFunction_def)
  show ?thesis
    using invalid_subscribe_returns_null [OF 1, of NoScope two_on_one_key]
      invalid_subscribe_returns_null [OF 2, of "Isolated 0" two_on_one_key]
    by (simp add: isValidEventName_def isString_def isRegExp_def isFunction_def)
qed

section \<open>Delivery\<close>


lemma token_call_timers: "timers (snd (token_call tok st)) = timers st"
  by (cases tok) (simp add: token_call_def)


lemma unsubscribe_Fn_returns: "\<exists>r. fst (unsubscribe (Fn f) callback st) = Return r"
  by (auto simp: unsubscribe_def case_prod_unfold split: option.splits)




lemma try_catch_eq: "try_catch f st = (Return (), snd (f st))"
  by (simp add: try_catch_def split: prod.splits completion.splits)

lemma createDeliveryFunction_Cons:
  "createDeliveryFunction B (cb # cbs) topic data st =
     createDeliveryFunction B cbs topic data (snd (invoke B cb topic data st))"
  by (simp add: createDeliveryFunction_def try_catch_eq)

lemma createDeliveryFunction_Nil: "createDeliveryFunction B [] topic data st = (Return (), st)"
  by (simp add: createDeliveryFunction_def)









section \<open>The stores agree with each other\<close>

text \<open>
  The registry has distinct keys, no entry without callbacks, and under a key only tokens
  made for that key and for the callback they are stored with.
\<close>

definition registry_ok :: "(jsstring \<times> subscription) list \<Rightarrow> bool" where
  "registry_ok store \<longleftrightarrow>
     distinct (map fst store) \<and>
     (\<forall>(key, pattern, callbacks) \<in> set store.
        callbacks \<noteq> [] \<and> distinct (map fst callbacks) \<and>
        (\<forall>(token, callback) \<in> set callbacks. tkey token = key \<and> tcb token = callback))"

text \<open>The tokens held by the registry.\<close>

definition registry_tokens :: "(jsstring \<times> subscription) list \<Rightarrow> token list" where
  "registry_tokens store = concat (map (\<lambda>(key, pattern, callbacks). map fst callbacks) store)"

text \<open>
  The callback index has distinct keys at both levels, no empty map and no empty set, and
  files each token under its own callback and key.
\<close>

definition key_index_ok :: "fn \<Rightarrow> (jsstring \<times> token list) list \<Rightarrow> bool" where
  "key_index_ok callback m \<longleftrightarrow>
     m \<noteq> [] \<and> distinct (map fst m) \<and>
     (\<forall>(key, tokens) \<in> set m.
        tokens \<noteq> [] \<and> distinct tokens \<and>
        (\<forall>token \<in> set tokens. tkey token = key \<and> tcb token = callback))"

definition callback_index_ok :: "(fn \<times> (jsstring \<times> token list) list) list \<Rightarrow> bool" where
  "callback_index_ok store \<longleftrightarrow>
     distinct (map fst store) \<and> (\<forall>(callback, m) \<in> set store. key_index_ok callback m)"

definition callback_index_tokens :: "(fn \<times> (jsstring \<times> token list) list) list \<Rightarrow> token list" where
  "callback_index_tokens store = concat (map (\<lambda>(callback, m). concat (map snd m)) store)"

text \<open>The scope index has distinct keys and files each token under its own scope. A set
  of tokens may be empty here.\<close>

definition scope_index_ok :: "(scope \<times> token list) list \<Rightarrow> bool" where
  "scope_index_ok store \<longleftrightarrow>
     distinct (map fst store) \<and>
     (\<forall>(scope, tokens) \<in> set store.
        distinct tokens \<and> (\<forall>token \<in> set tokens. tscope token = scope))"

definition scope_index_tokens :: "(scope \<times> token list) list \<Rightarrow> token list" where
  "scope_index_tokens store = concat (map snd store)"

text \<open>
  The four stores hold the same tokens, and every token is older than the next one to be
  made. \<open>reachable_consistent\<close> below shows that every state the engine can be in is
  consistent.
\<close>

definition consistent :: "state \<Rightarrow> bool" where
  "consistent st \<longleftrightarrow>
     registry_ok (subscriptions st) \<and>
     callback_index_ok (callbackSubscriptionTokens st) \<and>
     scope_index_ok (scopeSubscriptionTokens st) \<and>
     distinct (subscriptionTokens st) \<and>
     set (registry_tokens (subscriptions st)) = set (subscriptionTokens st) \<and>
     set (callback_index_tokens (callbackSubscriptionTokens st)) = set (subscriptionTokens st) \<and>
     set (scope_index_tokens (scopeSubscriptionTokens st)) = set (subscriptionTokens st) \<and>
     (\<forall>token \<in> set (subscriptionTokens st). tid token < nextToken st)"

text \<open>The entries of one callback in the callback index, without the test that there is at
  least one.\<close>

definition key_entries_ok :: "fn \<Rightarrow> (jsstring \<times> token list) list \<Rightarrow> bool" where
  "key_entries_ok f m \<longleftrightarrow>
     distinct (map fst m) \<and>
     (\<forall>(key, tokens) \<in> set m.
        tokens \<noteq> [] \<and> distinct tokens \<and> (\<forall>token \<in> set tokens. tkey token = key \<and> tcb token = f))"

text \<open>
  The state in which exactly the tokens that satisfy \<open>P\<close> are kept: they are filtered out
  of every store, and the registry and the callback index drop what becomes empty. The
  scope index keeps its emptied sets, as \<^verbatim>\<open>scopeSubscriptionTokens.delete\<close> does.
\<close>

definition keep_callbacks :: "(token \<Rightarrow> bool) \<Rightarrow> subscription \<Rightarrow> subscription" where
  "keep_callbacks P s = (fst s, filter (\<lambda>e. P (fst e)) (snd s))"

definition reg_keep :: "(token \<Rightarrow> bool) \<Rightarrow> (jsstring \<times> subscription) list \<Rightarrow> (jsstring \<times> subscription) list" where
  "reg_keep P store =
     filter (\<lambda>(key, s). snd s \<noteq> []) (map (\<lambda>(key, s). (key, keep_callbacks P s)) store)"

definition key_keep :: "(token \<Rightarrow> bool) \<Rightarrow> (jsstring \<times> token list) list \<Rightarrow> (jsstring \<times> token list) list" where
  "key_keep P m =
     filter (\<lambda>(key, tokens). tokens \<noteq> []) (map (\<lambda>(key, tokens). (key, filter P tokens)) m)"

definition cb_keep ::
  "(token \<Rightarrow> bool) \<Rightarrow> (fn \<times> (jsstring \<times> token list) list) list \<Rightarrow> (fn \<times> (jsstring \<times> token list) list) list"
where
  "cb_keep P store =
     filter (\<lambda>(callback, m). m \<noteq> []) (map (\<lambda>(callback, m). (callback, key_keep P m)) store)"

definition sc_keep :: "(token \<Rightarrow> bool) \<Rightarrow> (scope \<times> token list) list \<Rightarrow> (scope \<times> token list) list" where
  "sc_keep P store = map (\<lambda>(scope, tokens). (scope, filter P tokens)) store"

definition keep_tokens :: "(token \<Rightarrow> bool) \<Rightarrow> state \<Rightarrow> state" where
  "keep_tokens P st =
     st\<lparr>subscriptions := reg_keep P (subscriptions st),
        subscriptionTokens := filter P (subscriptionTokens st),
        callbackSubscriptionTokens := cb_keep P (callbackSubscriptionTokens st),
        scopeSubscriptionTokens := sc_keep P (scopeSubscriptionTokens st)\<rparr>"

text \<open>The tokens recorded for a scope, none when the scope has no entry.\<close>

definition scope_tokens :: "scope \<Rightarrow> state \<Rightarrow> token list" where
  "scope_tokens scope st =
     (case map_of (scopeSubscriptionTokens st) scope of None \<Rightarrow> [] | Some tokens \<Rightarrow> tokens)"

text \<open>What \<^verbatim>\<open>callbackSubscriptionTokens.add\<close> does to the map of one callback, and what
  \<^verbatim>\<open>subscribe\<close> does to the state once it has made the token.\<close>

definition key_index_add :: "jsstring \<Rightarrow> token \<Rightarrow> (jsstring \<times> token list) list \<Rightarrow> (jsstring \<times> token list) list" where
  "key_index_add k t m =
     (case getOrCreateMapElement m k [] of
        (callbackTokens, m') \<Rightarrow> AList.update k (set_add t callbackTokens) m')"

definition add_token :: "token \<Rightarrow> regexp \<Rightarrow> state \<Rightarrow> state" where
  "add_token t pat st =
     st\<lparr>nextToken := Suc (nextToken st),
        subscriptions := subscriptions_add (tkey t) pat t (tcb t) (subscriptions st),
        subscriptionTokens := set_add t (subscriptionTokens st),
        callbackSubscriptionTokens :=
          callbackSubscriptionTokens_add (tcb t) (tkey t) t (callbackSubscriptionTokens st),
        scopeSubscriptionTokens :=
          scopeSubscriptionTokens_add (tscope t) t (scopeSubscriptionTokens st)\<rparr>"

text \<open>
  The caller keeps the pattern objects it subscribed with, and can write their
  \<^verbatim>\<open>lastIndex\<close> between two calls of the engine. The registry holds such an object under
  the key that is its \<^verbatim>\<open>toString()\<close>; the pattern objects of literal topics are made
  inside the engine and never leave it.
\<close>

definition caller_sets_lastIndex :: "jsstring \<Rightarrow> nat \<Rightarrow> state \<Rightarrow> state" where
  "caller_sets_lastIndex k n st =
     st\<lparr>subscriptions :=
          map (\<lambda>(key, pattern, callbacks).
                 (key,
                  if key = k \<and> key = rx_toString pattern then set_lastIndex n pattern else pattern,
                  callbacks))
              (subscriptions st)\<rparr>"

text \<open>
  The states the engine can be in: from the state of \<^verbatim>\<open>pubsubFactory()\<close>, by any call of
  the API of the root or of a facade, by the call of any token, by the run of the deferred
  deliveries, and by what the caller does to its own pattern objects.
\<close>

inductive reachable :: "body \<Rightarrow> state \<Rightarrow> bool" for B :: body where
  start: "reachable B pubsubFactory"
| by_subscribe: "reachable B st \<Longrightarrow> reachable B (snd (subscribe scope eventName callback st))"
| by_subscribeOnce:
    "reachable B st \<Longrightarrow> reachable B (snd (subscribeOnce scope eventName callback st))"
| by_token: "reachable B st \<Longrightarrow> reachable B (snd (token_call token st))"
| by_unsubscribe: "reachable B st \<Longrightarrow> reachable B (snd (unsubscribe eventName callback st))"
| by_unsubscribeAll: "reachable B st \<Longrightarrow> reachable B (snd (unsubscribeAll scope eventName st))"
| by_publish: "reachable B st \<Longrightarrow> reachable B (snd (publish B eventName data sync st))"
| by_timers: "reachable B st \<Longrightarrow> reachable B (runAllTimers B st)"
| by_isolate: "reachable B st \<Longrightarrow> reachable B (snd (isolate st))"
| by_hasSubscribers: "reachable B st \<Longrightarrow> reachable B (snd (hasSubscribers eventName st))"
| by_lastIndex: "reachable B st \<Longrightarrow> reachable B (caller_sets_lastIndex key n st)"

subsection \<open>Removing tokens\<close>

text \<open>
  Two facts about a store held as an association list with distinct keys: changing the
  value under one key, and dropping the entry when the new value is empty, is a map (and a
  filter) over the whole list when the change leaves the other entries as they are.
\<close>

lemma alist_change_prune:
  assumes "distinct (map fst m)"
    and "\<And>k' v. (k', v) \<in> set m \<Longrightarrow> \<not> emp v"
    and "\<And>k' v. (k', v) \<in> set m \<Longrightarrow> k' \<noteq> k \<Longrightarrow> g k' v = v"
  shows "(case map_of m k of
            None \<Rightarrow> m
          | Some v \<Rightarrow> if emp (g k v) then AList.delete k m else AList.update k (g k v) m)
         = filter (\<lambda>(k', v). \<not> emp v) (map (\<lambda>(k', v). (k', g k' v)) m)"
  using assms
proof (induction m)
  case Nil
  show ?case by simp
next
  case (Cons e m)
  obtain k' v where e: "e = (k', v)" by (cases e)
  have others: "filter (\<lambda>(k', v). \<not> emp v) (map (\<lambda>(k', v). (k', g k' v)) m) = m"
    if "k \<notin> fst ` set m"
  proof -
    have "map (\<lambda>(k', v). (k', g k' v)) m = m"
      using that Cons.prems(3) by (intro map_idI) force
    moreover have "filter (\<lambda>(k', v). \<not> emp v) m = m"
      using Cons.prems(2) by (intro filter_True) force
    ultimately show ?thesis by simp
  qed
  show ?case
  proof (cases "k' = k")
    case True
    then have "k \<notin> fst ` set m" using Cons.prems(1) e by auto
    then show ?thesis
      using True e others by simp
  next
    case False
    have IH: "(case map_of m k of
            None \<Rightarrow> m
          | Some v \<Rightarrow> if emp (g k v) then AList.delete k m else AList.update k (g k v) m)
         = filter (\<lambda>(k', v). \<not> emp v) (map (\<lambda>(k', v). (k', g k' v)) m)"
      using Cons.prems by (intro Cons.IH) auto
    have "g k' v = v" "\<not> emp v"
      using Cons.prems(2,3) [of k' v] False e by auto
    then show ?thesis
      using False e IH by (auto split: option.splits)
  qed
qed

lemma alist_change:
  assumes "distinct (map fst m)"
    and "\<And>k' v. (k', v) \<in> set m \<Longrightarrow> k' \<noteq> k \<Longrightarrow> g k' v = v"
  shows "(case map_of m k of None \<Rightarrow> m | Some v \<Rightarrow> AList.update k (g k v) m)
         = map (\<lambda>(k', v). (k', g k' v)) m"
  using assms
proof (induction m)
  case Nil
  show ?case by simp
next
  case (Cons e m)
  obtain k' v where e: "e = (k', v)" by (cases e)
  show ?case
  proof (cases "k' = k")
    case True
    then have "k \<notin> fst ` set m" using Cons.prems(1) e by auto
    then have "map (\<lambda>(k', v). (k', g k' v)) m = m"
      using Cons.prems(2) by (intro map_idI) force
    then show ?thesis using True e by simp
  next
    case False
    have IH: "(case map_of m k of None \<Rightarrow> m | Some v \<Rightarrow> AList.update k (g k v) m)
         = map (\<lambda>(k', v). (k', g k' v)) m"
      using Cons.prems by (intro Cons.IH) auto
    have "g k' v = v" using Cons.prems(2) [of k' v] False e by auto
    then show ?thesis
      using False e IH by (auto split: option.splits)
  qed
qed

lemma AList_delete_filter: "AList.delete k m = filter (\<lambda>e. fst e \<noteq> k) m"
  by (induction m) auto

lemma removeAll_filter: "removeAll x xs = filter (\<lambda>y. y \<noteq> x) xs"
  by (induction xs) auto

lemma subscriptions_delete_keep:
  assumes "registry_ok store"
  shows "subscriptions_delete (tkey t) t store = reg_keep (\<lambda>u. u \<noteq> t) store"
proof -
  let ?g = "\<lambda>k::jsstring. keep_callbacks (\<lambda>u. u \<noteq> t)"
  let ?emp = "\<lambda>s::subscription. snd s = []"
  have 1: "distinct (map fst store)" using assms by (simp add: registry_ok_def)
  have 2: "\<not> ?emp v" if "(k', v) \<in> set store" for k' v
    using assms that by (cases v) (auto simp: registry_ok_def)
  have 3: "?g k' v = v" if "(k', v) \<in> set store" "k' \<noteq> tkey t" for k' v
  proof -
    obtain p cbs where v: "v = (p, cbs)" by (cases v)
    have "\<forall>(token, callback) \<in> set cbs. tkey token = k'"
      using assms that(1) v by (fastforce simp: registry_ok_def)
    then have "filter (\<lambda>e. fst e \<noteq> t) cbs = cbs"
      using that(2) by (intro filter_True) auto
    then show ?thesis by (simp add: keep_callbacks_def v)
  qed
  have "subscriptions_delete (tkey t) t store =
        (case map_of store (tkey t) of
            None \<Rightarrow> store
          | Some v \<Rightarrow> if ?emp (?g (tkey t) v) then AList.delete (tkey t) store
                       else AList.update (tkey t) (?g (tkey t) v) store)"
    by (simp add: subscriptions_delete_def keep_callbacks_def AList_delete_filter Let_def
        split: option.splits prod.splits)
  also have "\<dots> = filter (\<lambda>(k', v). \<not> ?emp v) (map (\<lambda>(k', v). (k', ?g k' v)) store)"
    using 1 2 3 by (rule alist_change_prune)
  finally show ?thesis by (simp add: reg_keep_def)
qed

lemma key_index_delete_keep:
  assumes "key_index_ok f m"
  shows "(case map_of m (tkey t) of
            None \<Rightarrow> m
          | Some callbackTokens \<Rightarrow>
              (let callbackTokens' = removeAll t callbackTokens in
               if callbackTokens' = [] then AList.delete (tkey t) m
               else AList.update (tkey t) callbackTokens' m))
         = key_keep (\<lambda>u. u \<noteq> t) m"
proof -
  let ?g = "\<lambda>(k::jsstring) ts. filter (\<lambda>u. u \<noteq> t) ts"
  let ?emp = "\<lambda>ts::token list. ts = []"
  have 1: "distinct (map fst m)" using assms by (simp add: key_index_ok_def)
  have 2: "\<not> ?emp v" if "(k', v) \<in> set m" for k' v
    using assms that by (auto simp: key_index_ok_def)
  have 3: "?g k' v = v" if "(k', v) \<in> set m" "k' \<noteq> tkey t" for k' v
  proof -
    have "\<forall>token \<in> set v. tkey token = k'"
      using assms that(1) by (fastforce simp: key_index_ok_def)
    then show ?thesis using that(2) by (intro filter_True) auto
  qed
  have "(case map_of m (tkey t) of
            None \<Rightarrow> m
          | Some callbackTokens \<Rightarrow>
              (let callbackTokens' = removeAll t callbackTokens in
               if callbackTokens' = [] then AList.delete (tkey t) m
               else AList.update (tkey t) callbackTokens' m)) =
        (case map_of m (tkey t) of
            None \<Rightarrow> m
          | Some v \<Rightarrow> if ?emp (?g (tkey t) v) then AList.delete (tkey t) m
                       else AList.update (tkey t) (?g (tkey t) v) m)"
    by (simp add: removeAll_filter Let_def split: option.splits)
  also have "\<dots> = filter (\<lambda>(k', v). \<not> ?emp v) (map (\<lambda>(k', v). (k', ?g k' v)) m)"
    using 1 2 3 by (rule alist_change_prune)
  finally show ?thesis by (simp add: key_keep_def)
qed

lemma key_keep_other:
  assumes "key_index_ok f m" and "\<And>u. tcb u = f \<Longrightarrow> P u"
  shows "key_keep P m = m"
proof -
  have "map (\<lambda>(key, tokens). (key, filter P tokens)) m = m"
    using assms by (intro map_idI) (fastforce simp: key_index_ok_def)
  moreover have "filter (\<lambda>(key, tokens). tokens \<noteq> []) m = m"
    using assms by (intro filter_True) (auto simp: key_index_ok_def)
  ultimately show ?thesis by (simp add: key_keep_def)
qed

lemma callbackSubscriptionTokens_delete_keep:
  assumes "callback_index_ok store"
  shows "callbackSubscriptionTokens_delete (tcb t) (tkey t) t store = cb_keep (\<lambda>u. u \<noteq> t) store"
proof -
  let ?g = "\<lambda>(f::fn). key_keep (\<lambda>u. u \<noteq> t)"
  let ?emp = "\<lambda>m::(jsstring \<times> token list) list. m = []"
  have 1: "distinct (map fst store)" using assms by (simp add: callback_index_ok_def)
  have ok: "key_index_ok f m" if "(f, m) \<in> set store" for f m
    using assms that by (auto simp: callback_index_ok_def)
  have 2: "\<not> ?emp v" if "(k', v) \<in> set store" for k' v
    using ok [OF that] by (simp add: key_index_ok_def)
  have 3: "?g k' v = v" if "(k', v) \<in> set store" "k' \<noteq> tcb t" for k' v
    using ok [OF that(1)] that(2) by (intro key_keep_other [of k']) auto
  have inner: "(case map_of m (tkey t) of
            None \<Rightarrow> m
          | Some callbackTokens \<Rightarrow>
              (let callbackTokens' = removeAll t callbackTokens in
               if callbackTokens' = [] then AList.delete (tkey t) m
               else AList.update (tkey t) callbackTokens' m))
         = key_keep (\<lambda>u. u \<noteq> t) m" if "map_of store (tcb t) = Some m" for m
    using ok [of "tcb t" m] that by (intro key_index_delete_keep) (auto dest: map_of_SomeD)
  have "callbackSubscriptionTokens_delete (tcb t) (tkey t) t store =
        (case map_of store (tcb t) of
            None \<Rightarrow> store
          | Some v \<Rightarrow> if ?emp (?g (tcb t) v) then AList.delete (tcb t) store
                       else AList.update (tcb t) (?g (tcb t) v) store)"
    by (simp add: callbackSubscriptionTokens_delete_def inner split: option.splits)
  also have "\<dots> = filter (\<lambda>(k', v). \<not> ?emp v) (map (\<lambda>(k', v). (k', ?g k' v)) store)"
    using 1 2 3 by (rule alist_change_prune)
  finally show ?thesis by (simp add: cb_keep_def)
qed

lemma scopeSubscriptionTokens_delete_keep:
  assumes "scope_index_ok store"
  shows "scopeSubscriptionTokens_delete (tscope t) t store = sc_keep (\<lambda>u. u \<noteq> t) store"
proof -
  let ?g = "\<lambda>(sc::scope) ts. filter (\<lambda>u. u \<noteq> t) ts"
  have 1: "distinct (map fst store)" using assms by (simp add: scope_index_ok_def)
  have 3: "?g k' v = v" if "(k', v) \<in> set store" "k' \<noteq> tscope t" for k' v
  proof -
    have "\<forall>token \<in> set v. tscope token = k'"
      using assms that(1) by (fastforce simp: scope_index_ok_def)
    then show ?thesis using that(2) by (intro filter_True) auto
  qed
  have "scopeSubscriptionTokens_delete (tscope t) t store =
        (case map_of store (tscope t) of
            None \<Rightarrow> store
          | Some v \<Rightarrow> AList.update (tscope t) (?g (tscope t) v) store)"
    by (simp add: scopeSubscriptionTokens_delete_def delete_by_set_def removeAll_filter Let_def
        split: option.splits)
  also have "\<dots> = map (\<lambda>(k', v). (k', ?g k' v)) store"
    using 1 3 by (rule alist_change)
  finally show ?thesis by (simp add: sc_keep_def)
qed


lemma reg_keep_cong:
  assumes "\<And>u. u \<in> set (registry_tokens store) \<Longrightarrow> P u = Q u"
  shows "reg_keep P store = reg_keep Q store"
proof -
  have "map (\<lambda>(key, s). (key, keep_callbacks P s)) store = map (\<lambda>(key, s). (key, keep_callbacks Q s)) store"
  proof (rule map_cong [OF refl])
    fix e assume e: "e \<in> set store"
    obtain k p cbs where [simp]: "e = (k, p, cbs)" by (cases e) auto
    have "filter (\<lambda>e. P (fst e)) cbs = filter (\<lambda>e. Q (fst e)) cbs"
      using assms e by (intro filter_cong [OF refl]) (force simp: registry_tokens_def)
    then show "(case e of (key, s) \<Rightarrow> (key, keep_callbacks P s)) = (case e of (key, s) \<Rightarrow> (key, keep_callbacks Q s))"
      by (simp add: keep_callbacks_def)
  qed
  then show ?thesis by (simp only: reg_keep_def)
qed

lemma key_keep_cong:
  assumes "\<And>u. u \<in> set (concat (map snd m)) \<Longrightarrow> P u = Q u"
  shows "key_keep P m = key_keep Q m"
proof -
  have "map (\<lambda>(key, tokens). (key, filter P tokens)) m = map (\<lambda>(key, tokens). (key, filter Q tokens)) m"
    using assms by (intro map_cong [OF refl]) (force intro!: filter_cong [OF refl])
  then show ?thesis by (simp only: key_keep_def)
qed

lemma cb_keep_cong:
  assumes "\<And>u. u \<in> set (callback_index_tokens store) \<Longrightarrow> P u = Q u"
  shows "cb_keep P store = cb_keep Q store"
proof -
  have "map (\<lambda>(callback, m). (callback, key_keep P m)) store = map (\<lambda>(callback, m). (callback, key_keep Q m)) store"
  proof (rule map_cong [OF refl])
    fix e assume e: "e \<in> set store"
    obtain f m where [simp]: "e = (f, m)" by (cases e)
    have "key_keep P m = key_keep Q m"
      using assms e by (intro key_keep_cong) (force simp: callback_index_tokens_def)
    then show "(case e of (callback, m) \<Rightarrow> (callback, key_keep P m)) = (case e of (callback, m) \<Rightarrow> (callback, key_keep Q m))"
      by simp
  qed
  then show ?thesis by (simp only: cb_keep_def)
qed

lemma sc_keep_cong:
  assumes "\<And>u. u \<in> set (scope_index_tokens store) \<Longrightarrow> P u = Q u"
  shows "sc_keep P store = sc_keep Q store"
  unfolding sc_keep_def
  using assms by (intro map_cong [OF refl]) (force simp: scope_index_tokens_def intro!: filter_cong [OF refl])

lemma keep_tokens_cong:
  assumes "consistent st" and "\<And>u. u \<in> set (subscriptionTokens st) \<Longrightarrow> P u = Q u"
  shows "keep_tokens P st = keep_tokens Q st"
proof -
  have "reg_keep P (subscriptions st) = reg_keep Q (subscriptions st)"
    using assms by (intro reg_keep_cong) (simp add: consistent_def)
  moreover have "cb_keep P (callbackSubscriptionTokens st) = cb_keep Q (callbackSubscriptionTokens st)"
    using assms by (intro cb_keep_cong) (simp add: consistent_def)
  moreover have "sc_keep P (scopeSubscriptionTokens st) = sc_keep Q (scopeSubscriptionTokens st)"
    using assms by (intro sc_keep_cong) (simp add: consistent_def)
  moreover have "filter P (subscriptionTokens st) = filter Q (subscriptionTokens st)"
    using assms by (intro filter_cong [OF refl]) simp
  ultimately show ?thesis by (simp add: keep_tokens_def)
qed

lemma reg_keep_True: "registry_ok store \<Longrightarrow> reg_keep (\<lambda>u. True) store = store"
  by (induction store) (auto simp: reg_keep_def registry_ok_def keep_callbacks_def)

lemma key_keep_True: "key_index_ok f m \<Longrightarrow> key_keep (\<lambda>u. True) m = m"
  by (rule key_keep_other) simp_all

lemma cb_keep_True: "callback_index_ok store \<Longrightarrow> cb_keep (\<lambda>u. True) store = store"
proof -
  assume ok: "callback_index_ok store"
  have "map (\<lambda>(callback, m). (callback, key_keep (\<lambda>u. True) m)) store = store"
    using ok by (intro map_idI) (auto simp: callback_index_ok_def key_keep_True)
  moreover have "filter (\<lambda>(callback, m). m \<noteq> []) store = store"
    using ok by (intro filter_True) (auto simp: callback_index_ok_def key_index_ok_def)
  ultimately show ?thesis by (simp add: cb_keep_def)
qed

lemma sc_keep_True: "sc_keep (\<lambda>u. True) store = store"
  by (induction store) (auto simp: sc_keep_def)

lemma keep_tokens_True: "consistent st \<Longrightarrow> keep_tokens (\<lambda>u. True) st = st"
  by (simp add: keep_tokens_def consistent_def reg_keep_True cb_keep_True sc_keep_True)

lemma keep_tokens_id:
  assumes "consistent st" and "\<And>u. u \<in> set (subscriptionTokens st) \<Longrightarrow> P u"
  shows "keep_tokens P st = st"
proof -
  have "keep_tokens P st = keep_tokens (\<lambda>u. True) st"
    using assms by (intro keep_tokens_cong) simp_all
  then show ?thesis using assms(1) by (simp add: keep_tokens_True)
qed

lemma registry_key_of_token:
  assumes "registry_ok store" and "t \<in> set (registry_tokens store)"
  shows "map_of store (tkey t) \<noteq> None"
proof -
  obtain k p cbs where e: "(k, p, cbs) \<in> set store" "t \<in> fst ` set cbs"
    using assms(2) by (auto simp: registry_tokens_def)
  then have "tkey t = k" using assms(1) by (fastforce simp: registry_ok_def)
  then have "tkey t \<in> fst ` set store" using e(1) by force
  then show ?thesis by (simp add: map_of_eq_None_iff)
qed

lemma token_call_keep:
  assumes "consistent st"
  shows "token_call t st =
           (subscriptions_has (tkey t) (subscriptions st), keep_tokens (\<lambda>u. u \<noteq> t) st)"
proof (cases "subscriptions_has (tkey t) (subscriptions st)")
  case False
  then have "t \<notin> set (subscriptionTokens st)"
    using assms registry_key_of_token [of "subscriptions st" t]
    by (auto simp: consistent_def subscriptions_has_def)
  then have "keep_tokens (\<lambda>u. u \<noteq> t) st = st"
    using assms by (intro keep_tokens_id) auto
  then show ?thesis
    using False by (cases t) (simp add: token_call_def)
next
  case True
  obtain n sc k cb where t: "t = Token n sc k cb" by (cases t)
  have "subscriptions_delete k t (subscriptions st) = reg_keep (\<lambda>u. u \<noteq> t) (subscriptions st)"
    using assms subscriptions_delete_keep [of "subscriptions st" t] by (simp add: consistent_def t)
  moreover have "callbackSubscriptionTokens_delete cb k t (callbackSubscriptionTokens st)
      = cb_keep (\<lambda>u. u \<noteq> t) (callbackSubscriptionTokens st)"
    using assms callbackSubscriptionTokens_delete_keep [of "callbackSubscriptionTokens st" t]
    by (simp add: consistent_def t)
  moreover have "scopeSubscriptionTokens_delete sc t (scopeSubscriptionTokens st)
      = sc_keep (\<lambda>u. u \<noteq> t) (scopeSubscriptionTokens st)"
    using assms scopeSubscriptionTokens_delete_keep [of "scopeSubscriptionTokens st" t]
    by (simp add: consistent_def t)
  ultimately show ?thesis
    using True by (simp add: token_call_def keep_tokens_def removeAll_filter t)
qed


lemma reg_keep_Nil: "reg_keep P [] = []"
  by (simp add: reg_keep_def)

lemma reg_keep_Cons:
  "reg_keep P ((k, p, cbs) # store) =
     (if filter (\<lambda>e. P (fst e)) cbs = [] then reg_keep P store
      else (k, p, filter (\<lambda>e. P (fst e)) cbs) # reg_keep P store)"
  by (simp add: reg_keep_def keep_callbacks_def)

lemma key_keep_Nil: "key_keep P [] = []"
  by (simp add: key_keep_def)

lemma key_keep_Cons:
  "key_keep P ((k, ts) # m) =
     (if filter P ts = [] then key_keep P m else (k, filter P ts) # key_keep P m)"
  by (simp add: key_keep_def)

lemma cb_keep_Nil: "cb_keep P [] = []"
  by (simp add: cb_keep_def)

lemma cb_keep_Cons:
  "cb_keep P ((f, m) # store) =
     (if key_keep P m = [] then cb_keep P store else (f, key_keep P m) # cb_keep P store)"
  by (simp add: cb_keep_def)

lemma sc_keep_Nil: "sc_keep P [] = []"
  by (simp add: sc_keep_def)

lemma sc_keep_Cons: "sc_keep P ((sc, ts) # store) = (sc, filter P ts) # sc_keep P store"
  by (simp add: sc_keep_def)

lemmas keep_simps = reg_keep_Nil reg_keep_Cons key_keep_Nil key_keep_Cons cb_keep_Nil cb_keep_Cons
  sc_keep_Nil sc_keep_Cons

lemma reg_keep_reg_keep: "reg_keep P (reg_keep Q store) = reg_keep (\<lambda>u. Q u \<and> P u) store"
proof (induction store)
  case Nil
  show ?case by (simp add: keep_simps)
next
  case (Cons e store)
  obtain k p cbs where e: "e = (k, p, cbs)" by (cases e) auto
  have "filter (\<lambda>e. Q (fst e) \<and> P (fst e)) cbs = []" if "filter (\<lambda>e. Q (fst e)) cbs = []"
    using that by (auto simp: filter_empty_conv)
  then show ?case
    using Cons.IH by (simp add: keep_simps e)
qed

lemma key_keep_key_keep: "key_keep P (key_keep Q m) = key_keep (\<lambda>u. Q u \<and> P u) m"
proof (induction m)
  case Nil
  show ?case by (simp add: keep_simps)
next
  case (Cons e m)
  obtain k ts where e: "e = (k, ts)" by (cases e)
  have "filter (\<lambda>u. Q u \<and> P u) ts = []" if "filter Q ts = []"
    using that by (auto simp: filter_empty_conv)
  then show ?case
    using Cons.IH by (simp add: keep_simps e)
qed

lemma cb_keep_cb_keep: "cb_keep P (cb_keep Q store) = cb_keep (\<lambda>u. Q u \<and> P u) store"
proof (induction store)
  case Nil
  show ?case by (simp add: keep_simps)
next
  case (Cons e store)
  obtain f m where e: "e = (f, m)" by (cases e)
  have "key_keep (\<lambda>u. Q u \<and> P u) m = []" if "key_keep Q m = []"
    using that key_keep_key_keep [of P Q m] by (simp add: keep_simps)
  then show ?case
    using Cons.IH by (simp add: keep_simps e key_keep_key_keep)
qed

lemma sc_keep_sc_keep: "sc_keep P (sc_keep Q store) = sc_keep (\<lambda>u. Q u \<and> P u) store"
  by (induction store) (auto simp: keep_simps)

lemma keep_tokens_keep_tokens:
  "keep_tokens P (keep_tokens Q st) = keep_tokens (\<lambda>u. Q u \<and> P u) st"
  by (simp add: keep_tokens_def reg_keep_reg_keep cb_keep_cb_keep sc_keep_sc_keep)

lemma registry_tokens_Nil: "registry_tokens [] = []"
  by (simp add: registry_tokens_def)

lemma registry_tokens_Cons:
  "registry_tokens ((k, p, cbs) # store) = map fst cbs @ registry_tokens store"
  by (simp add: registry_tokens_def)

lemma registry_tokens_keep:
  "set (registry_tokens (reg_keep P store)) = {u \<in> set (registry_tokens store). P u}"
proof (induction store)
  case Nil
  show ?case by (simp add: keep_simps registry_tokens_Nil)
next
  case (Cons e store)
  obtain k p cbs where e: "e = (k, p, cbs)" by (cases e) auto
  have "fst ` {x \<in> set cbs. P (fst x)} = {u \<in> fst ` set cbs. P u}"
    by force
  then show ?case
    using Cons.IH by (auto simp: keep_simps registry_tokens_Cons e filter_empty_conv)
qed

lemma fst_reg_keep: "set (map fst (reg_keep P store)) \<subseteq> set (map fst store)"
  by (force simp: reg_keep_def)

lemma registry_ok_Cons:
  "registry_ok ((k, p, cbs) # store) \<longleftrightarrow>
     k \<notin> fst ` set store \<and> cbs \<noteq> [] \<and> distinct (map fst cbs) \<and>
     (\<forall>(token, callback) \<in> set cbs. tkey token = k \<and> tcb token = callback) \<and>
     registry_ok store"
  by (auto simp: registry_ok_def)

lemma registry_ok_keep: "registry_ok store \<Longrightarrow> registry_ok (reg_keep P store)"
proof (induction store)
  case Nil
  then show ?case by (simp add: keep_simps)
next
  case (Cons e store)
  obtain k p cbs where e: "e = (k, p, cbs)" by (cases e) auto
  have "k \<notin> fst ` set (reg_keep P store)" if "k \<notin> fst ` set store"
    using that fst_reg_keep [of P store] by auto
  then show ?case
    using Cons by (auto simp: keep_simps e registry_ok_Cons distinct_map_filter)
qed

lemma set_concat_key_keep:
  "set (concat (map snd (key_keep P m))) = {u \<in> set (concat (map snd m)). P u}"
proof (induction m)
  case Nil
  show ?case by (simp add: keep_simps)
next
  case (Cons e m)
  obtain k ts where e: "e = (k, ts)" by (cases e)
  show ?case
    using Cons.IH by (auto simp: keep_simps e filter_empty_conv)
qed

lemma fst_key_keep: "set (map fst (key_keep P m)) \<subseteq> set (map fst m)"
  by (force simp: key_keep_def)

lemma key_index_ok_keep:
  assumes "key_index_ok f m" and "key_keep P m \<noteq> []"
  shows "key_index_ok f (key_keep P m)"
proof -
  have "distinct (map fst (key_keep P m))"
    using assms(1) unfolding key_keep_def key_index_ok_def
    by (simp add: distinct_map_filter comp_def case_prod_unfold)
  moreover have "\<forall>(key, tokens) \<in> set (key_keep P m).
        tokens \<noteq> [] \<and> distinct tokens \<and>
        (\<forall>token \<in> set tokens. tkey token = key \<and> tcb token = f)"
    using assms(1) unfolding key_keep_def key_index_ok_def by fastforce
  ultimately show ?thesis using assms(2) by (simp add: key_index_ok_def)
qed

lemma fst_cb_keep: "set (map fst (cb_keep P store)) \<subseteq> set (map fst store)"
  by (force simp: cb_keep_def)

lemma callback_index_ok_Cons:
  "callback_index_ok ((f, m) # store) \<longleftrightarrow>
     f \<notin> fst ` set store \<and> key_index_ok f m \<and> callback_index_ok store"
  by (auto simp: callback_index_ok_def)

lemma callback_index_ok_keep: "callback_index_ok store \<Longrightarrow> callback_index_ok (cb_keep P store)"
proof (induction store)
  case Nil
  then show ?case by (simp add: keep_simps)
next
  case (Cons e store)
  obtain f m where e: "e = (f, m)" by (cases e)
  have "f \<notin> fst ` set (cb_keep P store)" if "f \<notin> fst ` set store"
    using that fst_cb_keep [of P store] by auto
  then show ?case
    using Cons by (auto simp: keep_simps e callback_index_ok_Cons key_index_ok_keep)
qed

lemma callback_index_tokens_Nil: "callback_index_tokens [] = []"
  by (simp add: callback_index_tokens_def)

lemma callback_index_tokens_Cons:
  "callback_index_tokens ((f, m) # store) = concat (map snd m) @ callback_index_tokens store"
  by (simp add: callback_index_tokens_def)

lemma callback_index_tokens_keep:
  "set (callback_index_tokens (cb_keep P store)) = {u \<in> set (callback_index_tokens store). P u}"
proof (induction store)
  case Nil
  show ?case by (simp add: callback_index_tokens_Nil keep_simps)
next
  case (Cons e store)
  obtain f m where e: "e = (f, m)" by (cases e)
  have 1: "set (concat (map snd (key_keep P m))) = {u \<in> set (concat (map snd m)). P u}"
    by (rule set_concat_key_keep)
  show ?case
  proof (cases "key_keep P m = []")
    case True
    then have "{u \<in> set (concat (map snd m)). P u} = {}" using 1 by simp
    then show ?thesis
      using True Cons.IH by (auto simp: callback_index_tokens_Cons e keep_simps)
  next
    case False
    then show ?thesis
      using 1 Cons.IH by (simp add: callback_index_tokens_Cons e keep_simps) blast
  qed
qed

lemma scope_index_ok_keep: "scope_index_ok store \<Longrightarrow> scope_index_ok (sc_keep P store)"
  unfolding scope_index_ok_def sc_keep_def
  by (fastforce simp: comp_def case_prod_unfold)

lemma scope_index_tokens_keep:
  "set (scope_index_tokens (sc_keep P store)) = {u \<in> set (scope_index_tokens store). P u}"
  by (induction store) (auto simp: scope_index_tokens_def sc_keep_def)

lemma consistent_keep_tokens: "consistent st \<Longrightarrow> consistent (keep_tokens P st)"
  unfolding consistent_def keep_tokens_def
  by (simp add: registry_ok_keep callback_index_ok_keep scope_index_ok_keep
      registry_tokens_keep callback_index_tokens_keep scope_index_tokens_keep)

lemma reduce_tokens_keep:
  assumes "consistent st"
  shows "snd (reduce_tokens ts r st) = keep_tokens (\<lambda>u. u \<notin> set ts) st"
  using assms
proof (induction ts arbitrary: r st)
  case Nil
  then show ?case by (simp add: keep_tokens_True)
next
  case (Cons t ts)
  let ?st1 = "keep_tokens (\<lambda>u. u \<noteq> t) st"
  have "consistent ?st1" using Cons.prems by (rule consistent_keep_tokens)
  then have "snd (reduce_tokens ts (subscriptions_has (tkey t) (subscriptions st) \<or> r) ?st1)
      = keep_tokens (\<lambda>u. u \<notin> set ts) ?st1"
    by (rule Cons.IH)
  also have "\<dots> = keep_tokens (\<lambda>u. u \<noteq> t \<and> u \<notin> set ts) st"
    by (rule keep_tokens_keep_tokens)
  finally show ?case
    using token_call_keep [OF Cons.prems, of t]
    by (simp add: conj_commute de_Morgan_disj)
qed

lemma consistent_reduce_tokens: "consistent st \<Longrightarrow> consistent (snd (reduce_tokens ts r st))"
  by (simp add: reduce_tokens_keep consistent_keep_tokens)

text \<open>A second call of a token changes nothing, and returns whether the key of the token
  still has an entry.\<close>

lemma token_call_twice:
  assumes "consistent st"
  shows "token_call t (snd (token_call t st)) =
           (subscriptions_has (tkey t) (subscriptions (snd (token_call t st))),
            snd (token_call t st))"
proof -
  have 1: "snd (token_call t st) = keep_tokens (\<lambda>u. u \<noteq> t) st"
    using assms by (simp add: token_call_keep)
  have "consistent (keep_tokens (\<lambda>u. u \<noteq> t) st)"
    using assms by (rule consistent_keep_tokens)
  then have "token_call t (keep_tokens (\<lambda>u. u \<noteq> t) st) =
      (subscriptions_has (tkey t) (subscriptions (keep_tokens (\<lambda>u. u \<noteq> t) st)),
       keep_tokens (\<lambda>u. u \<noteq> t) (keep_tokens (\<lambda>u. u \<noteq> t) st))"
    by (rule token_call_keep)
  then show ?thesis
    by (simp add: 1 keep_tokens_keep_tokens)
qed

lemma map_of_sc_keep: "map_of (sc_keep P store) sc = map_option (filter P) (map_of store sc)"
  by (induction store) (auto simp: sc_keep_def)

lemma scope_tokens_keep: "scope_tokens sc (keep_tokens P st) = filter P (scope_tokens sc st)"
  by (simp add: scope_tokens_def keep_tokens_def map_of_sc_keep split: option.splits)

lemma cb_keep_delete:
  assumes "callback_index_ok store"
  shows "cb_keep (\<lambda>t. tcb t \<noteq> f) store = AList.delete f store"
  using assms
proof (induction store)
  case Nil
  show ?case by (simp add: keep_simps)
next
  case (Cons e store)
  obtain g m where e: "e = (g, m)" by (cases e)
  have ok: "key_index_ok g m" "callback_index_ok store"
    using Cons.prems by (simp_all add: e callback_index_ok_Cons)
  show ?case
  proof (cases "g = f")
    case True
    have "filter (\<lambda>t. tcb t \<noteq> f) ts = []" if "(k, ts) \<in> set m" for k ts
      using ok(1) that True by (fastforce simp: key_index_ok_def filter_empty_conv)
    then have "key_keep (\<lambda>t. tcb t \<noteq> f) m = []"
      by (auto simp: key_keep_def filter_empty_conv)
    then show ?thesis
      using True Cons.IH [OF ok(2)] by (simp add: keep_simps e)
  next
    case False
    then have "key_keep (\<lambda>t. tcb t \<noteq> f) m = m"
      using ok(1) by (intro key_keep_other [of g]) auto
    moreover have "m \<noteq> []" using ok(1) by (simp add: key_index_ok_def)
    ultimately show ?thesis
      using False Cons.IH [OF ok(2)] by (simp add: keep_simps e)
  qed
qed

lemma callback_index_token_cb:
  assumes "callback_index_ok store" and "(g, m) \<in> set store" and "u \<in> set (concat (map snd m))"
  shows "tcb u = g"
proof -
  obtain k ts where "(k, ts) \<in> set m" "u \<in> set ts" using assms(3) by auto
  moreover have "key_index_ok g m" using assms(1,2) by (auto simp: callback_index_ok_def)
  ultimately show ?thesis by (auto simp: key_index_ok_def)
qed

lemma callback_index_tokens_of:
  assumes "callback_index_ok store" and "map_of store f = Some m"
    and u: "u \<in> set (callback_index_tokens store)"
  shows "(u \<in> set (concat (map snd m))) = (tcb u = f)"
proof
  have fm: "(f, m) \<in> set store" using assms(2) by (rule map_of_SomeD)
  show "tcb u = f" if "u \<in> set (concat (map snd m))"
    using callback_index_token_cb [OF assms(1) fm that] .
  show "u \<in> set (concat (map snd m))" if f: "tcb u = f"
  proof -
    obtain g m' where g: "(g, m') \<in> set store" "u \<in> set (concat (map snd m'))"
      using u by (auto simp: callback_index_tokens_def)
    have "tcb u = g" using callback_index_token_cb [OF assms(1) g] .
    then have "(f, m') \<in> set store" using f g(1) by simp
    moreover have "distinct (map fst store)" using assms(1) by (simp add: callback_index_ok_def)
    ultimately have "m' = m" using fm by (meson eq_key_imp_eq_value)
    then show ?thesis using g(2) by simp
  qed
qed

lemma callback_index_tokens_none:
  assumes "callback_index_ok store" and "map_of store f = None"
    and u: "u \<in> set (callback_index_tokens store)"
  shows "tcb u \<noteq> f"
proof
  assume f: "tcb u = f"
  obtain g m' where g: "(g, m') \<in> set store" "u \<in> set (concat (map snd m'))"
    using u by (auto simp: callback_index_tokens_def)
  have "tcb u = g" using callback_index_token_cb [OF assms(1) g] .
  then have "f \<in> fst ` set store" using f g(1) by force
  then show False using assms(2) by (simp add: map_of_eq_None_iff)
qed


lemma unsubscribe_callback_keep:
  assumes "consistent st" and "\<not> subscriptionTokens_has f st"
  shows "snd (unsubscribe (Fn f) Undefined st) = keep_tokens (\<lambda>t. tcb t \<noteq> f) st"
proof (cases "map_of (callbackSubscriptionTokens st) f")
  case None
  have ok: "callback_index_ok (callbackSubscriptionTokens st)"
    and toks: "set (callback_index_tokens (callbackSubscriptionTokens st)) = set (subscriptionTokens st)"
    using assms(1) by (simp_all add: consistent_def)
  have "keep_tokens (\<lambda>t. tcb t \<noteq> f) st = st"
  proof (rule keep_tokens_id [OF assms(1)])
    fix u assume "u \<in> set (subscriptionTokens st)"
    then show "tcb u \<noteq> f"
      using callback_index_tokens_none [OF ok None] toks by blast
  qed
  then show ?thesis
    using assms(2) None by (simp add: unsubscribe_def callbackSubscriptionTokens_get_def)
next
  case (Some m)
  have ok: "callback_index_ok (callbackSubscriptionTokens st)"
    and toks: "set (callback_index_tokens (callbackSubscriptionTokens st)) = set (subscriptionTokens st)"
    using assms(1) by (simp_all add: consistent_def)
  have "snd (unsubscribe (Fn f) Undefined st) = snd (reduce_tokens (concat (map snd m)) False st)"
    using assms(2) Some
    by (simp add: unsubscribe_def callbackSubscriptionTokens_get_def case_prod_unfold)
  also have "\<dots> = keep_tokens (\<lambda>u. u \<notin> set (concat (map snd m))) st"
    using assms(1) by (rule reduce_tokens_keep)
  also have "\<dots> = keep_tokens (\<lambda>t. tcb t \<noteq> f) st"
  proof (rule keep_tokens_cong [OF assms(1)])
    fix u assume "u \<in> set (subscriptionTokens st)"
    then have "u \<in> set (callback_index_tokens (callbackSubscriptionTokens st))"
      using toks by simp
    then show "(u \<notin> set (concat (map snd m))) = (tcb u \<noteq> f)"
      using callback_index_tokens_of [OF ok Some] by simp
  qed
  finally show ?thesis .
qed

lemma reg_keep_none:
  assumes "\<And>u. u \<in> set (registry_tokens store) \<Longrightarrow> \<not> P u"
  shows "reg_keep P store = []"
  using assms
proof (induction store)
  case Nil
  show ?case by (simp add: keep_simps)
next
  case (Cons e store)
  obtain k p cbs where e: "e = (k, p, cbs)" by (cases e) auto
  have "filter (\<lambda>e. P (fst e)) cbs = []"
    using Cons.prems by (auto simp: filter_empty_conv e registry_tokens_Cons)
  moreover have "reg_keep P store = []"
    using Cons.prems by (intro Cons.IH) (simp add: e registry_tokens_Cons)
  ultimately show ?case by (simp add: keep_simps e)
qed

lemma key_keep_none:
  assumes "\<And>u. u \<in> set (concat (map snd m)) \<Longrightarrow> \<not> P u"
  shows "key_keep P m = []"
  using assms
proof (induction m)
  case Nil
  show ?case by (simp add: keep_simps)
next
  case (Cons e m)
  obtain k ts where e: "e = (k, ts)" by (cases e)
  have "filter P ts = []" using Cons.prems by (auto simp: filter_empty_conv e)
  moreover have "key_keep P m = []" using Cons.prems by (intro Cons.IH) (simp add: e)
  ultimately show ?case by (simp add: keep_simps e)
qed

lemma cb_keep_none:
  assumes "\<And>u. u \<in> set (callback_index_tokens store) \<Longrightarrow> \<not> P u"
  shows "cb_keep P store = []"
  using assms
proof (induction store)
  case Nil
  show ?case by (simp add: keep_simps)
next
  case (Cons e store)
  obtain f m where e: "e = (f, m)" by (cases e)
  have "key_keep P m = []"
    using Cons.prems by (intro key_keep_none) (simp add: e callback_index_tokens_Cons)
  moreover have "cb_keep P store = []"
    using Cons.prems by (intro Cons.IH) (simp add: e callback_index_tokens_Cons)
  ultimately show ?case by (simp add: keep_simps e)
qed

lemma scope_tokens_subset:
  "set (scope_tokens sc st) \<subseteq> set (scope_index_tokens (scopeSubscriptionTokens st))"
proof (cases "map_of (scopeSubscriptionTokens st) sc")
  case None
  then show ?thesis by (simp add: scope_tokens_def)
next
  case (Some ts)
  then have "(sc, ts) \<in> set (scopeSubscriptionTokens st)" by (rule map_of_SomeD)
  then show ?thesis using Some by (force simp: scope_tokens_def scope_index_tokens_def)
qed

lemma unsubscribeAll_root_keep:
  assumes "consistent st" and "\<not> truthy eventName"
  shows "unsubscribeAll NoScope eventName st =
           (Return (fst (reduce_tokens (subscriptionTokens st) False st)),
            keep_tokens (\<lambda>u. u \<notin> set (subscriptionTokens st)) st)"
  using assms reduce_tokens_keep [OF assms(1), of "subscriptionTokens st" False]
  by (simp add: unsubscribeAll_def scope_truthy_def case_prod_unfold)

lemma scope_index_tokens_of:
  assumes "scope_index_ok store" and "map_of store sc = Some ts"
    and u: "u \<in> set (scope_index_tokens store)"
  shows "(u \<in> set ts) = (tscope u = sc)"
proof
  have e: "(sc, ts) \<in> set store" using assms(2) by (rule map_of_SomeD)
  show "tscope u = sc" if "u \<in> set ts"
    using assms(1) e that by (fastforce simp: scope_index_ok_def)
  show "u \<in> set ts" if sc: "tscope u = sc"
  proof -
    obtain sc' ts' where e': "(sc', ts') \<in> set store" "u \<in> set ts'"
      using u by (auto simp: scope_index_tokens_def)
    then have "tscope u = sc'" using assms(1) by (fastforce simp: scope_index_ok_def)
    then have "(sc, ts') \<in> set store" using sc e'(1) by simp
    moreover have "distinct (map fst store)" using assms(1) by (simp add: scope_index_ok_def)
    ultimately have "ts' = ts" using e by (meson eq_key_imp_eq_value)
    then show ?thesis using e'(2) by simp
  qed
qed

lemma unsubscribeAll_scope_keep:
  assumes "consistent st" and "\<not> truthy eventName"
    and "map_of (scopeSubscriptionTokens st) (Isolated n) = Some ts"
  shows "unsubscribeAll (Isolated n) eventName st =
           (Return (fst (reduce_tokens ts False st)),
            keep_tokens (\<lambda>u. tscope u \<noteq> Isolated n) st)"
proof -
  have ok: "scope_index_ok (scopeSubscriptionTokens st)"
    and toks: "set (scope_index_tokens (scopeSubscriptionTokens st)) = set (subscriptionTokens st)"
    using assms(1) by (simp_all add: consistent_def)
  have "keep_tokens (\<lambda>u. u \<notin> set ts) st = keep_tokens (\<lambda>u. tscope u \<noteq> Isolated n) st"
  proof (rule keep_tokens_cong [OF assms(1)])
    fix u assume "u \<in> set (subscriptionTokens st)"
    then have "u \<in> set (scope_index_tokens (scopeSubscriptionTokens st))" using toks by simp
    then show "(u \<notin> set ts) = (tscope u \<noteq> Isolated n)"
      using scope_index_tokens_of [OF ok assms(3)] by simp
  qed
  then show ?thesis
    using assms(2,3) reduce_tokens_keep [OF assms(1), of ts False]
    by (simp add: unsubscribeAll_def scope_truthy_def case_prod_unfold)
qed

text \<open>No call of a token removes a scope from the scope index.\<close>

lemma scope_index_keys_kept:
  assumes "consistent st"
  shows "map fst (scopeSubscriptionTokens (snd (token_call t st)))
           = map fst (scopeSubscriptionTokens st)"
proof -
  have "map fst (sc_keep P store) = map fst store" for P and store :: "(scope \<times> token list) list"
    by (induction store) (auto simp: sc_keep_def)
  then show ?thesis
    using assms by (simp add: token_call_keep keep_tokens_def)
qed

text \<open>With no topic specifier, a facade whose scope has no entry in the scope index
  raises.\<close>

lemma unsubscribeAll_missing_scope:
  assumes "\<not> truthy eventName" and "map_of (scopeSubscriptionTokens st) (Isolated n) = None"
  shows "unsubscribeAll (Isolated n) eventName st = (Throw TypeError, st)"
  using assms by (simp add: unsubscribeAll_def scope_truthy_def)

text \<open>A scope without an entry has no token, so with or without the entry the state after
  the call is the one without the tokens of the scope.\<close>

lemma keep_tokens_missing_scope:
  assumes "consistent st" and "map_of (scopeSubscriptionTokens st) sc = None"
  shows "keep_tokens (\<lambda>u. tscope u \<noteq> sc) st = st"
proof (rule keep_tokens_id [OF assms(1)])
  fix u assume "u \<in> set (subscriptionTokens st)"
  then have "u \<in> set (scope_index_tokens (scopeSubscriptionTokens st))"
    using assms(1) by (simp add: consistent_def)
  then obtain sc' ts where e: "(sc', ts) \<in> set (scopeSubscriptionTokens st)" "u \<in> set ts"
    by (auto simp: scope_index_tokens_def)
  then have "tscope u = sc'"
    using assms(1) by (fastforce simp: consistent_def scope_index_ok_def)
  moreover have "sc' \<in> fst ` set (scopeSubscriptionTokens st)" using e(1) by force
  ultimately show "tscope u \<noteq> sc"
    using assms(2) by (auto simp: map_of_eq_None_iff)
qed

lemma unsubscribeAll_scope_state:
  assumes "consistent st" and "\<not> truthy eventName"
  shows "snd (unsubscribeAll (Isolated n) eventName st) = keep_tokens (\<lambda>u. tscope u \<noteq> Isolated n) st"
proof (cases "map_of (scopeSubscriptionTokens st) (Isolated n)")
  case None
  then show ?thesis
    using assms keep_tokens_missing_scope [OF assms(1) None]
    by (simp add: unsubscribeAll_missing_scope)
next
  case (Some ts)
  then show ?thesis
    using unsubscribeAll_scope_keep [OF assms Some] by simp
qed


subsection \<open>Adding a token\<close>

lemma update_fresh: "k \<notin> fst ` set m \<Longrightarrow> AList.update k v m = m @ [(k, v)]"
  by (induction m) auto

lemma set_set_add: "set (set_add x xs) = insert x (set xs)"
  by (auto simp: set_add_def)

lemma distinct_set_add: "distinct (set_add x xs) = distinct xs"
  by (auto simp: set_add_def)

lemma set_add_nonempty: "set_add x xs \<noteq> []"
  by (auto simp: set_add_def)

lemma set_add_fresh: "x \<notin> set xs \<Longrightarrow> set_add x xs = xs @ [x]"
  by (simp add: set_add_def)

lemma subscriptions_add_Nil: "subscriptions_add k pat t cb [] = [(k, pat, [(t, cb)])]"
  by (simp add: subscriptions_add_def getOrCreateMapElement_def)

lemma subscriptions_add_Cons:
  "subscriptions_add k pat t cb ((k', p, cbs) # store) =
     (if k' = k then (k, p, AList.update t cb cbs) # store
      else (k', p, cbs) # subscriptions_add k pat t cb store)"
  by (auto simp: subscriptions_add_def getOrCreateMapElement_def split: option.splits)

lemma fst_subscriptions_add:
  "fst ` set (subscriptions_add k pat t cb store) = insert k (fst ` set store)"
proof (induction store)
  case Nil
  show ?case by (simp add: subscriptions_add_Nil)
next
  case (Cons e store)
  obtain k' p cbs where e: "e = (k', p, cbs)" by (cases e) auto
  show ?case
    using Cons.IH by (cases "k' = k") (simp_all add: e subscriptions_add_Cons insert_commute)
qed

lemma registry_ok_add:
  assumes "registry_ok store" and "t \<notin> set (registry_tokens store)"
  shows "registry_ok (subscriptions_add (tkey t) pat t (tcb t) store)"
  using assms
proof (induction store)
  case Nil
  show ?case by (simp add: subscriptions_add_Nil registry_ok_def)
next
  case (Cons e store)
  obtain k p cbs where e: "e = (k, p, cbs)" by (cases e) auto
  have t: "t \<notin> fst ` set cbs" "t \<notin> set (registry_tokens store)"
    using Cons.prems(2) by (auto simp: e registry_tokens_Cons)
  show ?case
  proof (cases "k = tkey t")
    case True
    then show ?thesis
      using Cons.prems(1) t(1)
      by (auto simp: e subscriptions_add_Cons registry_ok_Cons update_fresh)
  next
    case False
    have "registry_ok (subscriptions_add (tkey t) pat t (tcb t) store)"
      using Cons.prems(1) t(2) by (intro Cons.IH) (simp_all add: e registry_ok_Cons)
    then show ?thesis
      using False Cons.prems(1)
      by (simp add: e subscriptions_add_Cons registry_ok_Cons fst_subscriptions_add)
  qed
qed

lemma registry_tokens_add:
  assumes "t \<notin> set (registry_tokens store)"
  shows "set (registry_tokens (subscriptions_add k pat t cb store)) = insert t (set (registry_tokens store))"
  using assms
proof (induction store)
  case Nil
  show ?case by (simp add: subscriptions_add_Nil registry_tokens_def)
next
  case (Cons e store)
  obtain k' p cbs where e: "e = (k', p, cbs)" by (cases e) auto
  have t: "t \<notin> fst ` set cbs" "t \<notin> set (registry_tokens store)"
    using Cons.prems by (auto simp: e registry_tokens_Cons)
  show ?case
    using Cons.IH [OF t(2)] t(1)
    by (auto simp: e subscriptions_add_Cons registry_tokens_Cons update_fresh)
qed

lemma key_index_add_Nil: "key_index_add k t [] = [(k, [t])]"
  by (simp add: key_index_add_def getOrCreateMapElement_def set_add_def)

lemma key_index_add_Cons:
  "key_index_add k t ((k', ts) # m) =
     (if k' = k then (k, set_add t ts) # m else (k', ts) # key_index_add k t m)"
  by (auto simp: key_index_add_def getOrCreateMapElement_def split: option.splits)

lemma fst_key_index_add: "fst ` set (key_index_add k t m) = insert k (fst ` set m)"
proof (induction m)
  case Nil
  show ?case by (simp add: key_index_add_Nil)
next
  case (Cons e m)
  obtain k' ts where e: "e = (k', ts)" by (cases e)
  show ?case
    using Cons.IH by (cases "k' = k") (simp_all add: e key_index_add_Cons insert_commute)
qed

lemma tokens_key_index_add:
  "set (concat (map snd (key_index_add k t m))) = insert t (set (concat (map snd m)))"
proof (induction m)
  case Nil
  show ?case by (simp add: key_index_add_Nil)
next
  case (Cons e m)
  obtain k' ts where e: "e = (k', ts)" by (cases e)
  show ?case
    using Cons.IH by (cases "k' = k") (auto simp: e key_index_add_Cons set_add_def)
qed

lemma key_index_ok_entries: "key_index_ok f m \<longleftrightarrow> m \<noteq> [] \<and> key_entries_ok f m"
  by (simp add: key_index_ok_def key_entries_ok_def)

lemma key_entries_ok_Cons:
  "key_entries_ok f ((k, ts) # m) \<longleftrightarrow>
     k \<notin> fst ` set m \<and> ts \<noteq> [] \<and> distinct ts \<and> (\<forall>token \<in> set ts. tkey token = k \<and> tcb token = f)
     \<and> key_entries_ok f m"
  by (auto simp: key_entries_ok_def)

lemma key_entries_ok_add:
  assumes "key_entries_ok (tcb t) m"
  shows "key_entries_ok (tcb t) (key_index_add (tkey t) t m)"
  using assms
proof (induction m)
  case Nil
  show ?case by (simp add: key_index_add_Nil key_entries_ok_def)
next
  case (Cons e m)
  obtain k ts where e: "e = (k, ts)" by (cases e)
  show ?case
  proof (cases "k = tkey t")
    case True
    then show ?thesis
      using Cons.prems
      by (simp add: e key_index_add_Cons key_entries_ok_Cons set_set_add distinct_set_add
          set_add_nonempty)
  next
    case False
    have "key_entries_ok (tcb t) (key_index_add (tkey t) t m)"
      using Cons.prems by (intro Cons.IH) (simp add: e key_entries_ok_Cons)
    then show ?thesis
      using False Cons.prems
      by (simp add: e key_index_add_Cons key_entries_ok_Cons fst_key_index_add)
  qed
qed

lemma key_index_add_nonempty: "key_index_add k t m \<noteq> []"
  by (cases m) (auto simp: key_index_add_Nil key_index_add_Cons split: if_splits)

lemma callbackSubscriptionTokens_add_Nil:
  "callbackSubscriptionTokens_add cb k t [] = [(cb, [(k, [t])])]"
  by (simp add: callbackSubscriptionTokens_add_def getOrCreateMapElement_def set_add_def)

lemma callbackSubscriptionTokens_add_Cons:
  "callbackSubscriptionTokens_add cb k t ((f, m) # store) =
     (if f = cb then (cb, key_index_add k t m) # store
      else (f, m) # callbackSubscriptionTokens_add cb k t store)"
proof (cases "f = cb")
  case True
  then show ?thesis
    by (cases "map_of m k")
       (simp_all add: callbackSubscriptionTokens_add_def key_index_add_def getOrCreateMapElement_def)
next
  case False
  then show ?thesis
    by (cases "map_of store cb")
       (simp_all add: callbackSubscriptionTokens_add_def getOrCreateMapElement_def
          split: option.splits)
qed


lemma fst_callbackSubscriptionTokens_add:
  "fst ` set (callbackSubscriptionTokens_add cb k t store) = insert cb (fst ` set store)"
proof (induction store)
  case Nil
  show ?case by (simp add: callbackSubscriptionTokens_add_Nil)
next
  case (Cons e store)
  obtain f m where e: "e = (f, m)" by (cases e)
  show ?case
    using Cons.IH
    by (cases "f = cb") (simp_all add: e callbackSubscriptionTokens_add_Cons insert_commute)
qed

lemma callback_index_ok_add:
  assumes "callback_index_ok store"
  shows "callback_index_ok (callbackSubscriptionTokens_add (tcb t) (tkey t) t store)"
  using assms
proof (induction store)
  case Nil
  show ?case
    by (simp add: callbackSubscriptionTokens_add_Nil callback_index_ok_def key_index_ok_def)
next
  case (Cons e store)
  obtain f m where e: "e = (f, m)" by (cases e)
  show ?case
  proof (cases "f = tcb t")
    case True
    have "key_entries_ok (tcb t) m"
      using Cons.prems True by (simp add: e callback_index_ok_Cons key_index_ok_entries)
    then have "key_index_ok (tcb t) (key_index_add (tkey t) t m)"
      by (simp add: key_index_ok_entries key_index_add_nonempty key_entries_ok_add)
    then show ?thesis
      using True Cons.prems
      by (simp add: e callbackSubscriptionTokens_add_Cons callback_index_ok_Cons)
  next
    case False
    have "callback_index_ok (callbackSubscriptionTokens_add (tcb t) (tkey t) t store)"
      using Cons.prems by (intro Cons.IH) (simp add: e callback_index_ok_Cons)
    then show ?thesis
      using False Cons.prems
      by (simp add: e callbackSubscriptionTokens_add_Cons callback_index_ok_Cons
          fst_callbackSubscriptionTokens_add)
  qed
qed

lemma callback_index_tokens_add:
  "set (callback_index_tokens (callbackSubscriptionTokens_add cb k t store))
     = insert t (set (callback_index_tokens store))"
proof (induction store)
  case Nil
  show ?case by (simp add: callbackSubscriptionTokens_add_Nil callback_index_tokens_def)
next
  case (Cons e store)
  obtain f m where e: "e = (f, m)" by (cases e)
  show ?case
    using Cons.IH tokens_key_index_add [of k t m]
    by (cases "f = cb")
       (simp_all add: e callbackSubscriptionTokens_add_Cons callback_index_tokens_Cons
          insert_commute Un_insert_left Un_insert_right)
qed

lemma scopeSubscriptionTokens_add_Nil: "scopeSubscriptionTokens_add sc t [] = [(sc, [t])]"
  by (simp add: scopeSubscriptionTokens_add_def getOrCreateMapElement_def set_add_def)

lemma scopeSubscriptionTokens_add_Cons:
  "scopeSubscriptionTokens_add sc t ((sc', ts) # store) =
     (if sc' = sc then (sc, set_add t ts) # store
      else (sc', ts) # scopeSubscriptionTokens_add sc t store)"
  by (cases "map_of store sc")
     (simp_all add: scopeSubscriptionTokens_add_def getOrCreateMapElement_def)

lemma fst_scopeSubscriptionTokens_add:
  "fst ` set (scopeSubscriptionTokens_add sc t store) = insert sc (fst ` set store)"
proof (induction store)
  case Nil
  show ?case by (simp add: scopeSubscriptionTokens_add_Nil)
next
  case (Cons e store)
  obtain sc' ts where e: "e = (sc', ts)" by (cases e)
  show ?case
    using Cons.IH
    by (cases "sc' = sc") (simp_all add: e scopeSubscriptionTokens_add_Cons insert_commute)
qed

lemma scope_index_ok_Cons:
  "scope_index_ok ((sc, ts) # store) \<longleftrightarrow>
     sc \<notin> fst ` set store \<and> distinct ts \<and> (\<forall>token \<in> set ts. tscope token = sc)
     \<and> scope_index_ok store"
  by (auto simp: scope_index_ok_def)

lemma scope_index_ok_add:
  assumes "scope_index_ok store"
  shows "scope_index_ok (scopeSubscriptionTokens_add (tscope t) t store)"
  using assms
proof (induction store)
  case Nil
  show ?case by (simp add: scopeSubscriptionTokens_add_Nil scope_index_ok_def)
next
  case (Cons e store)
  obtain sc ts where e: "e = (sc, ts)" by (cases e)
  show ?case
  proof (cases "sc = tscope t")
    case True
    then show ?thesis
      using Cons.prems
      by (simp add: e scopeSubscriptionTokens_add_Cons scope_index_ok_Cons set_set_add
          distinct_set_add)
  next
    case False
    have "scope_index_ok (scopeSubscriptionTokens_add (tscope t) t store)"
      using Cons.prems by (intro Cons.IH) (simp add: e scope_index_ok_Cons)
    then show ?thesis
      using False Cons.prems
      by (simp add: e scopeSubscriptionTokens_add_Cons scope_index_ok_Cons
          fst_scopeSubscriptionTokens_add)
  qed
qed

lemma scope_index_tokens_add:
  "set (scope_index_tokens (scopeSubscriptionTokens_add sc t store))
     = insert t (set (scope_index_tokens store))"
proof (induction store)
  case Nil
  show ?case by (simp add: scopeSubscriptionTokens_add_Nil scope_index_tokens_def)
next
  case (Cons e store)
  obtain sc' ts where e: "e = (sc', ts)" by (cases e)
  show ?case
    using Cons.IH
    by (cases "sc' = sc")
       (simp_all add: e scopeSubscriptionTokens_add_Cons scope_index_tokens_def set_set_add
          insert_commute Un_insert_left Un_insert_right)
qed

subsection \<open>Every operation keeps the stores consistent\<close>

lemma createSubscriptionPattern_valid:
  "isValidEventName eventName \<Longrightarrow> \<exists>pat. createSubscriptionPattern eventName = Return pat"
  by (cases eventName)
     (simp_all add: isValidEventName_def isString_def isRegExp_def createSubscriptionPattern_Str,
      simp add: createSubscriptionPattern_def)

lemma createSubscriptionKey_valid:
  "isValidEventName eventName \<Longrightarrow> \<exists>key. createSubscriptionKey eventName = Return key"
  by (cases eventName)
     (simp_all add: isValidEventName_def isString_def isRegExp_def createSubscriptionKey_def)

lemma subscribe_result:
  "subscribe scope eventName callback st = (Return None, st) \<or>
   (\<exists>cb key pat. callback = Fn cb \<and> createSubscriptionKey eventName = Return key \<and>
      createSubscriptionPattern eventName = Return pat \<and>
      subscribe scope eventName callback st =
        (Return (Some (Token (nextToken st) scope key cb)),
         add_token (Token (nextToken st) scope key cb) pat st))"
proof (cases "isFunction callback \<and> isValidEventName eventName")
  case False
  then have "subscribe scope eventName callback st = (Return None, st)"
    by (cases callback) (auto simp: subscribe_def isFunction_def)
  then show ?thesis by simp
next
  case True
  then obtain cb where cb: "callback = Fn cb" by (cases callback) (auto simp: isFunction_def)
  obtain key where key: "createSubscriptionKey eventName = Return key"
    using True createSubscriptionKey_valid by blast
  obtain pat where pat: "createSubscriptionPattern eventName = Return pat"
    using True createSubscriptionPattern_valid by blast
  have "subscribe scope eventName callback st =
        (Return (Some (Token (nextToken st) scope key cb)),
         add_token (Token (nextToken st) scope key cb) pat st)"
    using True by (simp add: subscribe_def cb key pat createSubscriptionToken_def add_token_def)
  then show ?thesis using cb key pat by blast
qed

lemma consistent_add_token:
  assumes "consistent st" and "tid t = nextToken st"
  shows "consistent (add_token t pat st)"
proof -
  have fresh: "t \<notin> set (subscriptionTokens st)"
    using assms by (auto simp: consistent_def)
  have toks: "set (registry_tokens (subscriptions st)) = set (subscriptionTokens st)"
    using assms(1) by (simp add: consistent_def)
  have "registry_ok (subscriptions_add (tkey t) pat t (tcb t) (subscriptions st))"
    using assms(1) fresh toks by (intro registry_ok_add) (simp_all add: consistent_def)
  moreover have "set (registry_tokens (subscriptions_add (tkey t) pat t (tcb t) (subscriptions st)))
      = insert t (set (subscriptionTokens st))"
    using fresh toks registry_tokens_add [of t "subscriptions st" "tkey t" pat "tcb t"] by simp
  moreover have "callback_index_ok
      (callbackSubscriptionTokens_add (tcb t) (tkey t) t (callbackSubscriptionTokens st))"
    using assms(1) by (intro callback_index_ok_add) (simp add: consistent_def)
  moreover have "scope_index_ok (scopeSubscriptionTokens_add (tscope t) t (scopeSubscriptionTokens st))"
    using assms(1) by (intro scope_index_ok_add) (simp add: consistent_def)
  moreover have "\<forall>token \<in> set (subscriptionTokens st). tid token < Suc (nextToken st)"
    using assms(1) by (auto simp: consistent_def less_Suc_eq)
  ultimately show ?thesis
    using assms
    by (simp add: consistent_def add_token_def callback_index_tokens_add scope_index_tokens_add
        set_set_add distinct_set_add)
qed

lemma consistent_subscribe:
  assumes "consistent st"
  shows "consistent (snd (subscribe scope eventName callback st))"
  using subscribe_result [of scope eventName callback st] assms
  by (auto simp: consistent_add_token)

lemma consistent_subscribeOnce:
  assumes "consistent st"
  shows "consistent (snd (subscribeOnce scope eventName callback st))"
  using assms by (cases callback) (simp_all add: subscribeOnce_def consistent_subscribe)

lemma consistent_token_call: "consistent st \<Longrightarrow> consistent (snd (token_call t st))"
  by (simp add: token_call_keep consistent_keep_tokens)

lemma consistent_unsubscribe:
  assumes "consistent st"
  shows "consistent (snd (unsubscribe eventName callback st))"
  using assms
  by (simp add: unsubscribe_def case_prod_unfold consistent_reduce_tokens
      split: jsval.splits option.splits completion.splits)

lemma consistent_unsubscribeAll:
  assumes "consistent st"
  shows "consistent (snd (unsubscribeAll scope eventName st))"
  using assms
  by (simp add: unsubscribeAll_def case_prod_unfold Let_def consistent_reduce_tokens
      split: option.splits completion.splits)

lemma consistent_calls: "consistent (st\<lparr>calls := c\<rparr>) = consistent st"
  by (simp add: consistent_def)

lemma consistent_timers: "consistent (st\<lparr>timers := q\<rparr>) = consistent st"
  by (simp add: consistent_def)

lemma consistent_nextSymbol: "consistent (st\<lparr>nextSymbol := n\<rparr>) = consistent st"
  by (simp add: consistent_def)

lemma consistent_invoke:
  "consistent st \<Longrightarrow> consistent (snd (invoke B f topic data st))"
proof (induction f arbitrary: st)
  case (UserFn n)
  then show ?case by (simp add: consistent_calls)
next
  case (TokenFn n scope key cb)
  then show ?case by (simp add: consistent_token_call)
next
  case (OnceFn n scope key cb)
  let ?u = "unsubscribe (Fn (TokenFn n scope key (OnceFn n scope key cb))) Undefined st"
  have "consistent (snd ?u)" using OnceFn.prems by (rule consistent_unsubscribe)
  then have "consistent (snd (invoke B cb topic data (snd ?u)))" by (rule OnceFn.IH)
  moreover obtain r where "fst ?u = Return r" using unsubscribe_Fn_returns by blast
  ultimately show ?case by (simp add: case_prod_unfold)
qed

lemma consistent_createDeliveryFunction:
  "consistent st \<Longrightarrow> consistent (snd (createDeliveryFunction B callbacks topic data st))"
  by (induction callbacks arbitrary: st)
     (simp_all add: createDeliveryFunction_Nil createDeliveryFunction_Cons consistent_invoke)

text \<open>A change of the pattern objects leaves the stores consistent: no part of
  \<open>consistent\<close> reads a pattern.\<close>

lemma matchingCallbacks_eq:
  "matchingCallbacks t store =
     (concat (map (\<lambda>(key, pattern, callbacks).
                     if fst (rx_match pattern t) then map snd callbacks else []) store),
      map (\<lambda>(key, pattern, callbacks). (key, snd (rx_match pattern t), callbacks)) store)"
  by (induction store) (auto simp: case_prod_unfold)

lemma fst_patterns:
  "fst ` set (map (\<lambda>(key, pattern, callbacks). (key, g key pattern, callbacks)) store)
     = fst ` set store"
  by (induction store) auto

lemma registry_ok_patterns:
  "registry_ok (map (\<lambda>(key, pattern, callbacks). (key, g key pattern, callbacks)) store)
     = registry_ok store"
proof (induction store)
  case Nil
  show ?case by simp
next
  case (Cons e store)
  obtain k p cbs where e: "e = (k, p, cbs)" by (cases e) auto
  show ?case
    using Cons.IH fst_patterns [of g store]
    by (simp add: e registry_ok_Cons del: set_map)
qed

lemma registry_tokens_patterns:
  "registry_tokens (map (\<lambda>(key, pattern, callbacks). (key, g key pattern, callbacks)) store)
     = registry_tokens store"
  by (induction store) (auto simp: registry_tokens_def)

lemma consistent_patterns:
  "consistent (st\<lparr>subscriptions :=
       map (\<lambda>(key, pattern, callbacks). (key, g key pattern, callbacks)) (subscriptions st)\<rparr>)
     = consistent st"
  by (simp add: consistent_def registry_ok_patterns registry_tokens_patterns)

lemma getCallbacksForEventName_eq:
  "getCallbacksForEventName t st =
     (concat (map (\<lambda>(key, pattern, callbacks).
                     if fst (rx_match pattern t) then map snd callbacks else [])
                  (subscriptions st)),
      st\<lparr>subscriptions :=
           map (\<lambda>(key, pattern, callbacks). (key, snd (rx_match pattern t), callbacks))
               (subscriptions st)\<rparr>)"
  by (simp add: getCallbacksForEventName_def matchingCallbacks_eq)

lemma consistent_getCallbacksForEventName:
  "consistent (snd (getCallbacksForEventName t st)) = consistent st"
  using consistent_patterns [where st = st and g = "\<lambda>key pattern. snd (rx_match pattern t)"]
  by (simp add: getCallbacksForEventName_eq)

lemma consistent_hasSubscribers:
  "consistent (snd (hasSubscribers eventName st)) = consistent st"
  by (cases eventName)
     (simp_all add: hasSubscribers_def case_prod_unfold consistent_getCallbacksForEventName)

lemma consistent_caller_sets_lastIndex: "consistent (caller_sets_lastIndex k n st) = consistent st"
  using consistent_patterns
    [where st = st and g = "\<lambda>key pattern.
       if key = k \<and> key = rx_toString pattern then set_lastIndex n pattern else pattern"]
  by (simp add: caller_sets_lastIndex_def)

lemma consistent_publish:
  assumes "consistent st"
  shows "consistent (snd (publish B topic data sync st))"
proof -
  obtain cbs st1 where g: "getCallbacksForEventName topic st = (cbs, st1)"
    by (cases "getCallbacksForEventName topic st")
  obtain c st' where d: "createDeliveryFunction B cbs topic data st1 = (c, st')"
    by (cases "createDeliveryFunction B cbs topic data st1")
  have 1: "consistent st1"
    using assms consistent_getCallbacksForEventName [of topic st] g by simp
  then have "consistent st'"
    using consistent_createDeliveryFunction [of st1 B cbs topic data] d by simp
  then show ?thesis
    using 1 g d by (simp add: publish_def consistent_timers split: completion.splits)
qed

lemma consistent_runTimers: "consistent st \<Longrightarrow> consistent (runTimers B q st)"
  by (induction q arbitrary: st) (auto simp: consistent_createDeliveryFunction)

lemma consistent_runAllTimers: "consistent st \<Longrightarrow> consistent (runAllTimers B st)"
  by (simp add: runAllTimers_def consistent_runTimers consistent_timers)

lemma consistent_pubsubFactory: "consistent pubsubFactory"
  by (simp add: consistent_def pubsubFactory_def registry_ok_def callback_index_ok_def
      scope_index_ok_def registry_tokens_def callback_index_tokens_def scope_index_tokens_def)

lemma reachable_consistent: "reachable B st \<Longrightarrow> consistent st"
proof (induction rule: reachable.induct)
  case start
  show ?case by (rule consistent_pubsubFactory)
next
  case (by_isolate st)
  then show ?case by (simp add: isolate_def consistent_nextSymbol)
qed (simp_all add: consistent_subscribe consistent_subscribeOnce consistent_token_call
      consistent_unsubscribe consistent_unsubscribeAll consistent_publish consistent_runAllTimers
      consistent_hasSubscribers consistent_caller_sets_lastIndex)

section \<open>Keys and patterns\<close>

text \<open>
  The key of a literal topic is the topic with a backslash before each character of
  \<open>regexpCharacters\<close>; the key of a pattern object is its \<^verbatim>\<open>toString()\<close>, which starts
  with a \<^verbatim>\<open>/\<close>. The key of a literal topic starts with a backslash or with a character
  that is not escaped, so not with \<^verbatim>\<open>/\<close>: no literal topic has the key of a pattern
  object, and two literal topics with one key are equal.
\<close>

lemma escapeRegexpCharacters_inj:
  "escapeRegexpCharacters s = escapeRegexpCharacters s' \<Longrightarrow> s = s'"
proof (induction s arbitrary: s')
  case Nil
  then show ?case by (cases s') (auto split: if_splits)
next
  case (Cons c s)
  have bs: "backslash \<in> set regexpCharacters"
    by (simp add: regexpCharacters_def)
  obtain c' cs' where s': "s' = c' # cs'"
    using Cons.prems by (cases s') (auto split: if_splits)
  have "c' = c \<and> escapeRegexpCharacters s = escapeRegexpCharacters cs'"
    using Cons.prems bs by (auto simp: s' split: if_splits)
  then show ?case
    using Cons.IH [of cs'] by (simp add: s')
qed

lemma escapeRegexpCharacters_not_toString: "escapeRegexpCharacters s \<noteq> rx_toString r"
proof (cases s)
  case Nil
  then show ?thesis by (simp add: rx_toString_def)
next
  case (Cons c cs)
  have "slash \<in> set regexpCharacters" "slash \<noteq> backslash"
    by (simp_all add: regexpCharacters_def slash_def backslash_def)
  then show ?thesis
    by (auto simp: Cons rx_toString_def)
qed

text \<open>
  What the registry holds under a key: the pattern object whose \<^verbatim>\<open>toString()\<close> the key
  is, or the pattern of the literal topic whose key it is.
\<close>

definition key_pattern_ok :: "jsstring \<Rightarrow> regexp \<Rightarrow> bool" where
  "key_pattern_ok key pattern \<longleftrightarrow>
     key = rx_toString pattern \<or>
     (\<exists>s. key = escapeRegexpCharacters s \<and> pattern = literal_pattern s)"

definition patterns_ok :: "(jsstring \<times> subscription) list \<Rightarrow> bool" where
  "patterns_ok store \<longleftrightarrow> (\<forall>(key, pattern, callbacks) \<in> set store. key_pattern_ok key pattern)"

lemma key_pattern_ok_literal:
  "key_pattern_ok (escapeRegexpCharacters s) pattern \<longleftrightarrow> pattern = literal_pattern s"
  using escapeRegexpCharacters_not_toString [of s pattern] escapeRegexpCharacters_inj [of s]
  by (auto simp: key_pattern_ok_def)

lemma rx_toString_set_lastIndex: "rx_toString (set_lastIndex n r) = rx_toString r"
  by (simp add: rx_toString_def rx_source_def rx_flags_def set_lastIndex_def)

lemma rx_match_object:
  "snd (rx_match r t) = r \<or> (\<exists>n. snd (rx_match r t) = set_lastIndex n r)"
  by (auto simp: rx_match_def split: option.splits)

lemma rx_toString_rx_match: "rx_toString (snd (rx_match r t)) = rx_toString r"
  using rx_match_object [of r t] by (auto simp: rx_toString_set_lastIndex)

lemma key_pattern_ok_rx_match:
  "key_pattern_ok key pattern \<Longrightarrow> key_pattern_ok key (snd (rx_match pattern t))"
  by (auto simp: key_pattern_ok_def rx_toString_rx_match rx_match_literal)

lemma key_pattern_ok_set_lastIndex:
  "key = rx_toString pattern \<Longrightarrow> key_pattern_ok key (set_lastIndex n pattern)"
  by (simp add: key_pattern_ok_def rx_toString_set_lastIndex)

lemma patterns_ok_Cons:
  "patterns_ok ((k, p, cbs) # store) \<longleftrightarrow> key_pattern_ok k p \<and> patterns_ok store"
  by (simp add: patterns_ok_def)

lemma patterns_ok_keep: "patterns_ok store \<Longrightarrow> patterns_ok (reg_keep P store)"
proof (induction store)
  case Nil
  then show ?case by (simp add: keep_simps)
next
  case (Cons e store)
  obtain k p cbs where e: "e = (k, p, cbs)" by (cases e) auto
  show ?case
    using Cons by (simp add: e keep_simps patterns_ok_Cons)
qed

lemma patterns_ok_add:
  assumes "patterns_ok store" and "key_pattern_ok k pat"
  shows "patterns_ok (subscriptions_add k pat t cb store)"
  using assms(1)
proof (induction store)
  case Nil
  show ?case using assms(2) by (simp add: subscriptions_add_Nil patterns_ok_def)
next
  case (Cons e store)
  obtain k' p cbs where e: "e = (k', p, cbs)" by (cases e) auto
  show ?case
    using Cons by (auto simp: e subscriptions_add_Cons patterns_ok_Cons)
qed

lemma patterns_ok_matching:
  "patterns_ok store \<Longrightarrow>
     patterns_ok (map (\<lambda>(key, pattern, callbacks). (key, snd (rx_match pattern t), callbacks)) store)"
  by (induction store) (auto simp: patterns_ok_Cons key_pattern_ok_rx_match)

lemma patterns_ok_caller:
  "patterns_ok store \<Longrightarrow>
     patterns_ok (map (\<lambda>(key, pattern, callbacks).
        (key, if key = k \<and> key = rx_toString pattern then set_lastIndex n pattern else pattern,
         callbacks)) store)"
  by (induction store) (auto simp: patterns_ok_Cons key_pattern_ok_set_lastIndex)

text \<open>Every operation keeps this agreement of keys and patterns.\<close>

lemma key_pattern_ok_created:
  assumes "createSubscriptionKey eventName = Return key"
    and "createSubscriptionPattern eventName = Return pat"
  shows "key_pattern_ok key pat"
proof (cases eventName)
  case (Str s)
  then show ?thesis
    using assms
    by (auto simp: createSubscriptionKey_Str createSubscriptionPattern_Str key_pattern_ok_def)
next
  case (Rx r)
  then show ?thesis
    using assms
    by (simp add: createSubscriptionKey_def createSubscriptionPattern_def key_pattern_ok_def)
qed (insert assms, simp_all add: createSubscriptionKey_def)

lemma patterns_ok_subscribe:
  assumes "patterns_ok (subscriptions st)"
  shows "patterns_ok (subscriptions (snd (subscribe scope eventName callback st)))"
  using subscribe_result [of scope eventName callback st] assms
  by (auto simp: add_token_def patterns_ok_add key_pattern_ok_created)

lemma patterns_ok_subscribeOnce:
  assumes "patterns_ok (subscriptions st)"
  shows "patterns_ok (subscriptions (snd (subscribeOnce scope eventName callback st)))"
  using assms by (cases callback) (simp_all add: subscribeOnce_def patterns_ok_subscribe)

lemma patterns_ok_reduce_tokens:
  assumes "consistent st" and "patterns_ok (subscriptions st)"
  shows "patterns_ok (subscriptions (snd (reduce_tokens ts r st)))"
  using assms by (simp add: reduce_tokens_keep keep_tokens_def patterns_ok_keep)

lemma patterns_ok_token_call:
  assumes "consistent st" and "patterns_ok (subscriptions st)"
  shows "patterns_ok (subscriptions (snd (token_call t st)))"
  using assms by (simp add: token_call_keep keep_tokens_def patterns_ok_keep)

lemma patterns_ok_unsubscribe:
  assumes "consistent st" and "patterns_ok (subscriptions st)"
  shows "patterns_ok (subscriptions (snd (unsubscribe eventName callback st)))"
  using assms
  by (simp add: unsubscribe_def case_prod_unfold patterns_ok_reduce_tokens
      split: jsval.splits option.splits completion.splits)

lemma patterns_ok_unsubscribeAll:
  assumes "consistent st" and "patterns_ok (subscriptions st)"
  shows "patterns_ok (subscriptions (snd (unsubscribeAll scope eventName st)))"
  using assms
  by (simp add: unsubscribeAll_def case_prod_unfold Let_def patterns_ok_reduce_tokens
      split: option.splits completion.splits)

lemma patterns_ok_invoke:
  "consistent st \<Longrightarrow> patterns_ok (subscriptions st) \<Longrightarrow>
     patterns_ok (subscriptions (snd (invoke B f topic data st)))"
proof (induction f arbitrary: st)
  case (UserFn n)
  then show ?case by simp
next
  case (TokenFn n scope key cb)
  then show ?case by (simp add: patterns_ok_token_call)
next
  case (OnceFn n scope key cb)
  let ?u = "unsubscribe (Fn (TokenFn n scope key (OnceFn n scope key cb))) Undefined st"
  have "consistent (snd ?u)" using OnceFn.prems(1) by (rule consistent_unsubscribe)
  moreover have "patterns_ok (subscriptions (snd ?u))"
    using OnceFn.prems by (rule patterns_ok_unsubscribe)
  ultimately have "patterns_ok (subscriptions (snd (invoke B cb topic data (snd ?u))))"
    by (rule OnceFn.IH)
  moreover obtain r where "fst ?u = Return r" using unsubscribe_Fn_returns by blast
  ultimately show ?case by (simp add: case_prod_unfold)
qed

lemma patterns_ok_createDeliveryFunction:
  "consistent st \<Longrightarrow> patterns_ok (subscriptions st) \<Longrightarrow>
     patterns_ok (subscriptions (snd (createDeliveryFunction B callbacks topic data st)))"
  by (induction callbacks arbitrary: st)
     (simp_all add: createDeliveryFunction_Nil createDeliveryFunction_Cons consistent_invoke
        patterns_ok_invoke)

lemma patterns_ok_getCallbacksForEventName:
  "patterns_ok (subscriptions st) \<Longrightarrow>
     patterns_ok (subscriptions (snd (getCallbacksForEventName t st)))"
  by (simp add: getCallbacksForEventName_eq patterns_ok_matching)

lemma patterns_ok_hasSubscribers:
  "patterns_ok (subscriptions st) \<Longrightarrow>
     patterns_ok (subscriptions (snd (hasSubscribers eventName st)))"
  by (cases eventName)
     (simp_all add: hasSubscribers_def case_prod_unfold patterns_ok_getCallbacksForEventName)

lemma patterns_ok_publish:
  assumes "consistent st" and "patterns_ok (subscriptions st)"
  shows "patterns_ok (subscriptions (snd (publish B topic data sync st)))"
proof -
  obtain cbs st1 where g: "getCallbacksForEventName topic st = (cbs, st1)"
    by (cases "getCallbacksForEventName topic st")
  obtain c st' where d: "createDeliveryFunction B cbs topic data st1 = (c, st')"
    by (cases "createDeliveryFunction B cbs topic data st1")
  have 1: "consistent st1" "patterns_ok (subscriptions st1)"
    using assms consistent_getCallbacksForEventName [of topic st]
      patterns_ok_getCallbacksForEventName [of st topic] g by simp_all
  then have "patterns_ok (subscriptions st')"
    using patterns_ok_createDeliveryFunction [of st1 B cbs topic data] d by simp
  then show ?thesis
    using 1 g d by (simp add: publish_def split: completion.splits)
qed

lemma patterns_ok_runTimers:
  "consistent st \<Longrightarrow> patterns_ok (subscriptions st) \<Longrightarrow>
     patterns_ok (subscriptions (runTimers B q st))"
  by (induction q arbitrary: st)
     (auto simp: consistent_createDeliveryFunction patterns_ok_createDeliveryFunction)

lemma patterns_ok_runAllTimers:
  "consistent st \<Longrightarrow> patterns_ok (subscriptions st) \<Longrightarrow>
     patterns_ok (subscriptions (runAllTimers B st))"
  by (simp add: runAllTimers_def patterns_ok_runTimers consistent_timers)

lemma reachable_patterns_ok: "reachable B st \<Longrightarrow> patterns_ok (subscriptions st)"
proof (induction rule: reachable.induct)
  case start
  show ?case by (simp add: pubsubFactory_def patterns_ok_def)
next
  case (by_isolate st)
  then show ?case by (simp add: isolate_def)
next
  case (by_lastIndex st key n)
  then show ?case by (simp add: caller_sets_lastIndex_def patterns_ok_caller)
qed (simp_all add: reachable_consistent patterns_ok_subscribe patterns_ok_subscribeOnce
      patterns_ok_token_call patterns_ok_unsubscribe patterns_ok_unsubscribeAll
      patterns_ok_publish patterns_ok_runAllTimers patterns_ok_hasSubscribers)

text \<open>What \<^verbatim>\<open>subscribe\<close> does with a literal topic and a function.\<close>

lemma subscribe_literal:
  "subscribe scope (Str s) (Fn cb) st =
     (Return (Some (Token (nextToken st) scope (escapeRegexpCharacters s) cb)),
      add_token (Token (nextToken st) scope (escapeRegexpCharacters s) cb) (literal_pattern s) st)"
  by (simp add: subscribe_def isValidEventName_def isString_def createSubscriptionKey_Str
      createSubscriptionPattern_Str createSubscriptionToken_def add_token_def)

lemma map_of_subscriptions_add:
  "map_of (subscriptions_add k pat t cb store) k =
     Some (case map_of store k of
             None \<Rightarrow> (pat, [(t, cb)])
           | Some (p, cbs) \<Rightarrow> (p, AList.update t cb cbs))"
proof (induction store)
  case Nil
  show ?case by (simp add: subscriptions_add_Nil)
next
  case (Cons e store)
  obtain k' p cbs where e: "e = (k', p, cbs)" by (cases e) auto
  show ?case
    using Cons.IH by (simp add: e subscriptions_add_Cons)
qed

lemma map_of_update_same: "map_of (AList.update k v al) k = Some v"
  by (simp add: update_conv')

text \<open>The entry of a literal topic after a subscription to it: its pattern is the pattern
  of the topic, whether the entry was there or not, and it holds the new token.\<close>

lemma literal_entry:
  assumes "patterns_ok (subscriptions st)"
  shows "\<exists>callbacks.
           map_of (subscriptions
               (add_token (Token n scope (escapeRegexpCharacters s) cb) (literal_pattern s) st))
             (escapeRegexpCharacters s) = Some (literal_pattern s, callbacks)
         \<and> map_of callbacks (Token n scope (escapeRegexpCharacters s) cb) = Some cb"
proof (cases "map_of (subscriptions st) (escapeRegexpCharacters s)")
  case None
  then show ?thesis
    by (simp add: add_token_def map_of_subscriptions_add)
next
  case (Some e)
  obtain p cbs where e: "e = (p, cbs)" by (cases e)
  have "(escapeRegexpCharacters s, p, cbs) \<in> set (subscriptions st)"
    using Some e by (simp add: map_of_SomeD)
  then have "key_pattern_ok (escapeRegexpCharacters s) p"
    using assms by (auto simp: patterns_ok_def)
  then have "p = literal_pattern s" by (simp add: key_pattern_ok_literal)
  then show ?thesis
    using Some e by (simp add: add_token_def map_of_subscriptions_add map_of_update_same)
qed

text \<open>A function with no entry in the callback index is the callback of no entry of the
  registry.\<close>

lemma registry_callback_indexed:
  assumes "consistent st" and "(k, p, cbs) \<in> set (subscriptions st)" and "(u, f) \<in> set cbs"
  shows "tkey u = k \<and> tcb u = f \<and> u \<in> set (subscriptionTokens st)"
proof -
  have "tkey u = k \<and> tcb u = f"
    using assms by (fastforce simp: consistent_def registry_ok_def)
  moreover have "u \<in> set (registry_tokens (subscriptions st))"
    using assms(2,3) by (force simp: registry_tokens_def)
  ultimately show ?thesis using assms(1) by (simp add: consistent_def)
qed

lemma resolved_callback:
  "f \<in> set (fst (getCallbacksForEventName t st)) \<longleftrightarrow>
     (\<exists>(key, pattern, callbacks) \<in> set (subscriptions st).
        fst (rx_match pattern t) \<and> f \<in> snd ` set callbacks)"
  by (auto simp: getCallbacksForEventName_eq split: if_splits)

text \<open>
  C6: for every literal topic specifier \<open>s\<close>, function \<open>cb\<close> and topic \<open>t\<close>, in every
  state the engine reaches:
  \<^item> the pattern that \<^verbatim>\<open>createSubscriptionPattern\<close> builds from \<open>s\<close> is accepted by the
    \<^verbatim>\<open>RegExp\<close> constructor, matches \<open>t\<close> if and only if \<open>t\<close> equals \<open>s\<close>, and is not
    changed by the match: the characters of \<open>s\<close> that mean something in a pattern are
    escaped and match only themselves;
  \<^item> \<^verbatim>\<open>subscribe(s, cb)\<close> returns a token, and the entry of the registry that holds this
    token with \<open>cb\<close> has that pattern, whatever was subscribed before: the key of \<open>s\<close>
    is the key of no pattern object and of no other literal topic;
  \<^item> when \<open>cb\<close> was not subscribed before, the callbacks resolved for \<open>t\<close> after
    \<^verbatim>\<open>subscribe(s, cb)\<close> include \<open>cb\<close> if and only if \<open>t\<close> equals \<open>s\<close>;
  \<^item> on a fresh engine, after \<^verbatim>\<open>subscribe(s, cb)\<close> a topic has subscribers exactly when
    it is \<open>s\<close>.
\<close>

theorem literal_topic_matches_exactly:
  assumes "reachable B st"
  shows "(\<exists>r. createSubscriptionPattern (Str s) = Return r \<and> rx_match r t = (t = s, r))
       \<and> (\<exists>token pattern callbacks.
            fst (subscribe scope (Str s) (Fn cb) st) = Return (Some token)
            \<and> map_of (subscriptions (snd (subscribe scope (Str s) (Fn cb) st))) (tkey token)
                = Some (pattern, callbacks)
            \<and> map_of callbacks token = Some cb
            \<and> rx_match pattern t = (t = s, pattern))
       \<and> (map_of (callbackSubscriptionTokens st) cb = None \<longrightarrow>
            (cb \<in> set (fst (getCallbacksForEventName t (snd (subscribe scope (Str s) (Fn cb) st))))
               \<longleftrightarrow> t = s))
       \<and> fst (hasSubscribers (Some t) (snd (subscribe scope (Str s) (Fn cb) pubsubFactory)))
            = (t = s)"
proof -
  let ?key = "escapeRegexpCharacters s"
  let ?tok = "Token (nextToken st) scope ?key cb"
  let ?st' = "snd (subscribe scope (Str s) (Fn cb) st)"
  have c: "consistent st" using assms by (rule reachable_consistent)
  have p: "patterns_ok (subscriptions st)" using assms by (rule reachable_patterns_ok)
  have st': "?st' = add_token ?tok (literal_pattern s) st"
    by (simp add: subscribe_literal)
  have c': "consistent ?st'" using c by (rule consistent_subscribe)
  have p': "patterns_ok (subscriptions ?st')" using p by (rule patterns_ok_subscribe)
  obtain callbacks where entry:
      "map_of (subscriptions ?st') ?key = Some (literal_pattern s, callbacks)"
      "map_of callbacks ?tok = Some cb"
    using literal_entry [OF p, of "nextToken st" scope s cb] st' by auto
  have 1: "\<exists>r. createSubscriptionPattern (Str s) = Return r \<and> rx_match r t = (t = s, r)"
    by (simp add: createSubscriptionPattern_Str rx_match_literal)
  have 2: "\<exists>token pattern callbacks.
            fst (subscribe scope (Str s) (Fn cb) st) = Return (Some token)
            \<and> map_of (subscriptions ?st') (tkey token) = Some (pattern, callbacks)
            \<and> map_of callbacks token = Some cb
            \<and> rx_match pattern t = (t = s, pattern)"
  proof (intro exI conjI)
    show "fst (subscribe scope (Str s) (Fn cb) st) = Return (Some ?tok)"
      by (simp add: subscribe_literal)
    show "map_of (subscriptions ?st') (tkey ?tok) = Some (literal_pattern s, callbacks)"
      using entry(1) by simp
    show "map_of callbacks ?tok = Some cb" by (rule entry(2))
    show "rx_match (literal_pattern s) t = (t = s, literal_pattern s)" by (rule rx_match_literal)
  qed
  have 3: "cb \<in> set (fst (getCallbacksForEventName t ?st')) \<longleftrightarrow> t = s"
    if fresh: "map_of (callbackSubscriptionTokens st) cb = None"
  proof
    assume "t = s"
    moreover have "(?key, literal_pattern s, callbacks) \<in> set (subscriptions ?st')"
      using entry(1) by (rule map_of_SomeD)
    moreover have "cb \<in> snd ` set callbacks"
      using map_of_SomeD [OF entry(2)] by force
    ultimately show "cb \<in> set (fst (getCallbacksForEventName t ?st'))"
      unfolding resolved_callback by (force simp: rx_match_literal)
  next
    assume "cb \<in> set (fst (getCallbacksForEventName t ?st'))"
    then obtain k pat cbs u where e: "(k, pat, cbs) \<in> set (subscriptions ?st')"
        "fst (rx_match pat t)" "(u, cb) \<in> set cbs"
      unfolding resolved_callback by auto
    have u: "tkey u = k" "tcb u = cb" "u \<in> set (subscriptionTokens ?st')"
      using registry_callback_indexed [OF c' e(1) e(3)] by simp_all
    have "u = ?tok"
    proof (rule ccontr)
      assume "u \<noteq> ?tok"
      then have "u \<in> set (subscriptionTokens st)"
        using u(3) by (simp add: st' add_token_def set_set_add)
      then have "u \<in> set (callback_index_tokens (callbackSubscriptionTokens st))"
        using c by (simp add: consistent_def)
      moreover have "callback_index_ok (callbackSubscriptionTokens st)"
        using c by (simp add: consistent_def)
      ultimately have "tcb u \<noteq> cb"
        using callback_index_tokens_none [OF _ fresh] by blast
      then show False using u(2) by simp
    qed
    then have "k = ?key" using u(1) by auto
    then have "key_pattern_ok ?key pat"
      using p' e(1) by (auto simp: patterns_ok_def)
    then have "pat = literal_pattern s" by (simp add: key_pattern_ok_literal)
    then show "t = s" using e(2) by (simp add: rx_match_literal)
  qed
  have 4: "fst (hasSubscribers (Some t) (snd (subscribe scope (Str s) (Fn cb) pubsubFactory)))
            = (t = s)"
    by (simp add: subscribe_literal add_token_def pubsubFactory_def subscriptions_add_Nil
        hasSubscribers_def getCallbacksForEventName_eq rx_match_literal case_prod_unfold)
  show ?thesis using 1 2 3 4 by blast
qed


text \<open>A pattern object \<^verbatim>\<open>/a/\<close> subscribed on a fresh engine: its key is the literal
  topic \<^verbatim>\<open>'/a/'\<close> without the backslashes that the key of that topic has.\<close>

definition pattern_a :: regexp where
  "pattern_a = RegExp [Atom (Lit (ch CHR ''a'')) QOne] False False 0"

definition pattern_subscriber :: state where
  "pattern_subscriber = snd (subscribe NoScope (Rx pattern_a) (Fn (UserFn 0)) pubsubFactory)"

theorem literal_topic_matches_exactly_witness:
  "reachable returns_normally pattern_subscriber
   \<and> map fst (subscriptions pattern_subscriber) = [js ''/a/'']
   \<and> fst (getCallbacksForEventName (js ''a'') pattern_subscriber) = [UserFn 0]
   \<and> map_of (callbackSubscriptionTokens pattern_subscriber) (UserFn 1) = None
   \<and> UserFn 1 \<notin> set (fst (getCallbacksForEventName (js ''a'')
        (snd (subscribe NoScope (Str (js ''/a/'')) (Fn (UserFn 1)) pattern_subscriber))))
   \<and> UserFn 1 \<in> set (fst (getCallbacksForEventName (js ''/a/'')
        (snd (subscribe NoScope (Str (js ''/a/'')) (Fn (UserFn 1)) pattern_subscriber))))
   \<and> UserFn 1 \<in> set (fst (getCallbacksForEventName (js ''^part1.*'')
        (snd (subscribe NoScope (Str (js ''^part1.*'')) (Fn (UserFn 1)) pattern_subscriber))))
   \<and> UserFn 1 \<notin> set (fst (getCallbacksForEventName (js ''part1.anything'')
        (snd (subscribe NoScope (Str (js ''^part1.*'')) (Fn (UserFn 1)) pattern_subscriber))))
   \<and> fst (hasSubscribers (Some (js ''^part1.*''))
        (snd (subscribe NoScope (Str (js ''^part1.*'')) (Fn (UserFn 1)) pubsubFactory)))
   \<and> \<not> fst (hasSubscribers (Some (js ''part1.anything''))
        (snd (subscribe NoScope (Str (js ''^part1.*'')) (Fn (UserFn 1)) pubsubFactory)))"
proof -
  have r: "reachable returns_normally pattern_subscriber"
    unfolding pattern_subscriber_def by (intro reachable.by_subscribe reachable.start)
  have keys: "map fst (subscriptions pattern_subscriber) = [js ''/a/'']" by code_simp
  have before: "fst (getCallbacksForEventName (js ''a'') pattern_subscriber) = [UserFn 0]"
    by code_simp
  have fresh: "map_of (callbackSubscriptionTokens pattern_subscriber) (UserFn 1) = None"
    by code_simp
  have ne: "js ''a'' \<noteq> js ''/a/''" "js ''part1.anything'' \<noteq> js ''^part1.*''"
    by code_simp+
  have 1: "UserFn 1 \<notin> set (fst (getCallbacksForEventName (js ''a'')
        (snd (subscribe NoScope (Str (js ''/a/'')) (Fn (UserFn 1)) pattern_subscriber))))"
    using literal_topic_matches_exactly [OF r, of "js ''/a/''" "js ''a''" NoScope "UserFn 1"]
      fresh ne(1) by blast
  have 2: "UserFn 1 \<in> set (fst (getCallbacksForEventName (js ''/a/'')
        (snd (subscribe NoScope (Str (js ''/a/'')) (Fn (UserFn 1)) pattern_subscriber))))"
    using literal_topic_matches_exactly [OF r, of "js ''/a/''" "js ''/a/''" NoScope "UserFn 1"]
      fresh by blast
  have 3: "UserFn 1 \<in> set (fst (getCallbacksForEventName (js ''^part1.*'')
        (snd (subscribe NoScope (Str (js ''^part1.*'')) (Fn (UserFn 1)) pattern_subscriber))))"
    "fst (hasSubscribers (Some (js ''^part1.*''))
        (snd (subscribe NoScope (Str (js ''^part1.*'')) (Fn (UserFn 1)) pubsubFactory)))"
    using literal_topic_matches_exactly [OF r, of "js ''^part1.*''" "js ''^part1.*''" NoScope "UserFn 1"]
      fresh by blast+
  have 4: "UserFn 1 \<notin> set (fst (getCallbacksForEventName (js ''part1.anything'')
        (snd (subscribe NoScope (Str (js ''^part1.*'')) (Fn (UserFn 1)) pattern_subscriber))))"
    "\<not> fst (hasSubscribers (Some (js ''part1.anything''))
        (snd (subscribe NoScope (Str (js ''^part1.*'')) (Fn (UserFn 1)) pubsubFactory)))"
    using literal_topic_matches_exactly [OF r, of "js ''^part1.*''" "js ''part1.anything''" NoScope
        "UserFn 1"]
      fresh ne(2) by blast+
  show ?thesis
    using r keys before fresh 1 2 3 4 by simp
qed

section \<open>Matching, \<^verbatim>\<open>hasSubscribers\<close> and \<^verbatim>\<open>publish\<close>\<close>























section \<open>\<^verbatim>\<open>unsubscribe\<close> by callback\<close>

text \<open>The state after \<^verbatim>\<open>subscribeOnce('test', f0); subscribe('test', f0);
  subscribe('test', f1)\<close>: the first subscription is stored with the wrapper of \<open>f0\<close> as
  its callback, the second with \<open>f0\<close> itself.\<close>

definition once_and_direct :: state where
  "once_and_direct =
     snd (subscribe NoScope (Str (js ''test'')) (Fn (UserFn 1))
       (snd (subscribe NoScope (Str (js ''test'')) (Fn (UserFn 0))
         (snd (subscribeOnce NoScope (Str (js ''test'')) (Fn (UserFn 0)) pubsubFactory)))))"

text \<open>
  C9, as amended: in every consistent state (so in every state the engine reaches), for
  every function \<open>f\<close> that is not itself a live subscription token, \<^verbatim>\<open>unsubscribe(f)\<close>
  removes the subscriptions that are stored with \<open>f\<close> as their callback, under all their
  keys, and nothing else. These are the subscriptions made by \<^verbatim>\<open>subscribe(topic, f)\<close>; a
  subscription made by \<^verbatim>\<open>subscribeOnce(topic, f)\<close> is stored with its wrapper as callback,
  so it is not one of them and stays. The registry is the old one without the pairs whose
  token was made for the callback \<open>f\<close> and without the entries this empties, the set of
  all tokens is the old one without the tokens made for \<open>f\<close>, the callback index is the
  old one without \<open>f\<close>, and every scope keeps its other tokens.
\<close>

theorem unsubscribe_callback_frame:
  assumes "consistent st" and "\<not> subscriptionTokens_has f st"
  shows "subscriptions (snd (unsubscribe (Fn f) Undefined st))
           = reg_keep (\<lambda>t. tcb t \<noteq> f) (subscriptions st)
       \<and> subscriptionTokens (snd (unsubscribe (Fn f) Undefined st))
           = filter (\<lambda>t. tcb t \<noteq> f) (subscriptionTokens st)
       \<and> callbackSubscriptionTokens (snd (unsubscribe (Fn f) Undefined st))
           = AList.delete f (callbackSubscriptionTokens st)
       \<and> (\<forall>scope. scope_tokens scope (snd (unsubscribe (Fn f) Undefined st))
           = filter (\<lambda>t. tcb t \<noteq> f) (scope_tokens scope st))"
proof -
  have "callback_index_ok (callbackSubscriptionTokens st)"
    using assms(1) by (simp add: consistent_def)
  then have "cb_keep (\<lambda>t. tcb t \<noteq> f) (callbackSubscriptionTokens st)
      = AList.delete f (callbackSubscriptionTokens st)"
    by (rule cb_keep_delete)
  then show ?thesis
    by (simp add: unsubscribe_callback_keep [OF assms] scope_tokens_keep) (simp add: keep_tokens_def)
qed

theorem unsubscribe_callback_frame_witness:
  "consistent once_and_direct
   \<and> subscriptionTokens_has (UserFn 0) once_and_direct = False
   \<and> subscribed_to once_and_direct
        = [(js ''test'', [OnceFn 0 NoScope (js ''test'') (UserFn 0), UserFn 0, UserFn 1])]
   \<and> subscribed_to (snd (unsubscribe (Fn (UserFn 0)) Undefined once_and_direct))
        = [(js ''test'', [OnceFn 0 NoScope (js ''test'') (UserFn 0), UserFn 1])]
   \<and> consistent two_callbacks
   \<and> subscriptionTokens_has (UserFn 0) two_callbacks = False
   \<and> subscribed_to two_callbacks = [(js ''part1'', [UserFn 0, UserFn 1]), (js ''part2'', [UserFn 0, UserFn 1])]
   \<and> subscribed_to (snd (unsubscribe (Fn (UserFn 0)) Undefined two_callbacks))
        = [(js ''part1'', [UserFn 1]), (js ''part2'', [UserFn 1])]
   \<and> subscriptionTokens (snd (unsubscribe (Fn (UserFn 0)) Undefined two_callbacks))
        = [Token 2 NoScope (js ''part1'') (UserFn 1), Token 3 NoScope (js ''part2'') (UserFn 1)]
   \<and> map fst (callbackSubscriptionTokens (snd (unsubscribe (Fn (UserFn 0)) Undefined two_callbacks)))
        = [UserFn 1]"
proof -
  have c: "consistent two_callbacks" by code_simp
  have nt: "\<not> subscriptionTokens_has (UserFn 0) two_callbacks" by code_simp
  have before: "subscribed_to two_callbacks
      = [(js ''part1'', [UserFn 0, UserFn 1]), (js ''part2'', [UserFn 0, UserFn 1])]"
    by code_simp
  have 1: "map (\<lambda>(key, pattern, callbacks). (key, map snd callbacks))
        (reg_keep (\<lambda>t. tcb t \<noteq> UserFn 0) (subscriptions two_callbacks))
      = [(js ''part1'', [UserFn 1]), (js ''part2'', [UserFn 1])]"
    by code_simp
  have 2: "filter (\<lambda>t. tcb t \<noteq> UserFn 0) (subscriptionTokens two_callbacks)
      = [Token 2 NoScope (js ''part1'') (UserFn 1), Token 3 NoScope (js ''part2'') (UserFn 1)]"
    by code_simp
  have 3: "map fst (AList.delete (UserFn 0) (callbackSubscriptionTokens two_callbacks)) = [UserFn 1]"
    by code_simp
  have c': "consistent once_and_direct" by code_simp
  have nt': "\<not> subscriptionTokens_has (UserFn 0) once_and_direct" by code_simp
  have before': "subscribed_to once_and_direct
      = [(js ''test'', [OnceFn 0 NoScope (js ''test'') (UserFn 0), UserFn 0, UserFn 1])]"
    by code_simp
  have 4: "map (\<lambda>(key, pattern, callbacks). (key, map snd callbacks))
        (reg_keep (\<lambda>t. tcb t \<noteq> UserFn 0) (subscriptions once_and_direct))
      = [(js ''test'', [OnceFn 0 NoScope (js ''test'') (UserFn 0), UserFn 1])]"
    by code_simp
  have 5: "subscribed_to (snd (unsubscribe (Fn (UserFn 0)) Undefined once_and_direct))
        = [(js ''test'', [OnceFn 0 NoScope (js ''test'') (UserFn 0), UserFn 1])]"
    using unsubscribe_callback_frame [OF c' nt'] 4 by (simp add: subscribed_to_def)
  show ?thesis
    using unsubscribe_callback_frame [OF c nt] c nt before 1 2 3 c' nt' before' 5
    by (simp add: subscribed_to_def)
qed

text \<open>
  C9 as stated fails for a function that is itself a live token: \<^verbatim>\<open>unsubscribe\<close> tries
  the token first. Here the token of the subscription to \<^verbatim>\<open>'a'\<close> is also the callback
  of the subscription to \<^verbatim>\<open>'b'\<close>; \<^verbatim>\<open>unsubscribe\<close> of it removes the subscription to
  \<^verbatim>\<open>'a'\<close> and leaves the one to \<^verbatim>\<open>'b'\<close>, whose callback it is.
\<close>

theorem unsubscribe_token_used_as_callback:
  "fst (subscribe NoScope (Str (js ''a'')) (Fn (UserFn 0)) pubsubFactory)
     = Return (Some (Token 0 NoScope (js ''a'') (UserFn 0)))
   \<and> subscribed_to token_as_callback
        = [(js ''a'', [UserFn 0]), (js ''b'', [TokenFn 0 NoScope (js ''a'') (UserFn 0)])]
   \<and> subscribed_to (snd (unsubscribe (Fn (TokenFn 0 NoScope (js ''a'') (UserFn 0))) Undefined
        token_as_callback))
        = [(js ''b'', [TokenFn 0 NoScope (js ''a'') (UserFn 0)])]"
  by code_simp

section \<open>\<^verbatim>\<open>unsubscribeAll\<close> with the empty string\<close>

text \<open>
  C10: \<^verbatim>\<open>unsubscribeAll('')\<close> does what \<^verbatim>\<open>unsubscribeAll()\<close> does, for every scope and
  state. In a consistent state, on the root API it returns and leaves the registry, the set
  of all tokens and the callback index empty and no token under any scope; on a facade the
  state after the call is the old one without the tokens of the facade's scope, under
  whatever key they are, and the call returns when the scope has an entry in the scope
  index.
\<close>

theorem unsubscribeAll_empty_string:
  assumes "consistent st"
  shows "unsubscribeAll scope (Str []) st = unsubscribeAll scope Undefined st
       \<and> (scope = NoScope \<longrightarrow>
            (\<exists>r. fst (unsubscribeAll scope (Str []) st) = Return r)
            \<and> subscriptions (snd (unsubscribeAll scope (Str []) st)) = []
            \<and> subscriptionTokens (snd (unsubscribeAll scope (Str []) st)) = []
            \<and> callbackSubscriptionTokens (snd (unsubscribeAll scope (Str []) st)) = []
            \<and> (\<forall>sc. scope_tokens sc (snd (unsubscribeAll scope (Str []) st)) = []))
       \<and> (scope \<noteq> NoScope \<longrightarrow>
            subscriptions (snd (unsubscribeAll scope (Str []) st))
                = reg_keep (\<lambda>t. tscope t \<noteq> scope) (subscriptions st)
            \<and> subscriptionTokens (snd (unsubscribeAll scope (Str []) st))
                = filter (\<lambda>t. tscope t \<noteq> scope) (subscriptionTokens st)
            \<and> callbackSubscriptionTokens (snd (unsubscribeAll scope (Str []) st))
                = cb_keep (\<lambda>t. tscope t \<noteq> scope) (callbackSubscriptionTokens st)
            \<and> (\<forall>sc. scope_tokens sc (snd (unsubscribeAll scope (Str []) st))
                = filter (\<lambda>t. tscope t \<noteq> scope) (scope_tokens sc st)))
       \<and> (scope \<noteq> NoScope \<and> map_of (scopeSubscriptionTokens st) scope \<noteq> None \<longrightarrow>
            (\<exists>r. fst (unsubscribeAll scope (Str []) st) = Return r))"
proof (intro conjI impI)
  show "unsubscribeAll scope (Str []) st = unsubscribeAll scope Undefined st"
    by (simp add: unsubscribeAll_def truthy_def)
next
  assume root: "scope = NoScope"
  have falsy: "\<not> truthy (Str [])" by (simp add: truthy_def)
  note eq = unsubscribeAll_root_keep [OF assms falsy]
  have toks: "set (registry_tokens (subscriptions st)) = set (subscriptionTokens st)"
    "set (callback_index_tokens (callbackSubscriptionTokens st)) = set (subscriptionTokens st)"
    "set (scope_index_tokens (scopeSubscriptionTokens st)) = set (subscriptionTokens st)"
    using assms by (simp_all add: consistent_def)
  show "\<exists>r. fst (unsubscribeAll scope (Str []) st) = Return r"
    using root eq by simp
  have "reg_keep (\<lambda>u. u \<notin> set (subscriptionTokens st)) (subscriptions st) = []"
    by (rule reg_keep_none) (simp add: toks(1))
  then show "subscriptions (snd (unsubscribeAll scope (Str []) st)) = []"
    using root eq by (simp add: keep_tokens_def)
  show "subscriptionTokens (snd (unsubscribeAll scope (Str []) st)) = []"
    using root eq by (simp add: keep_tokens_def)
  have "cb_keep (\<lambda>u. u \<notin> set (subscriptionTokens st)) (callbackSubscriptionTokens st) = []"
    by (rule cb_keep_none) (simp add: toks(2))
  then show "callbackSubscriptionTokens (snd (unsubscribeAll scope (Str []) st)) = []"
    using root eq by (simp add: keep_tokens_def)
  show "\<forall>sc. scope_tokens sc (snd (unsubscribeAll scope (Str []) st)) = []"
  proof
    fix sc
    have "set (scope_tokens sc st) \<subseteq> set (subscriptionTokens st)"
      using scope_tokens_subset [of sc st] toks(3) by simp
    then show "scope_tokens sc (snd (unsubscribeAll scope (Str []) st)) = []"
      using root eq by (auto simp: scope_tokens_keep filter_empty_conv)
  qed
next
  assume "scope \<noteq> NoScope"
  then obtain n where sc: "scope = Isolated n" by (cases scope) auto
  have falsy: "\<not> truthy (Str [])" by (simp add: truthy_def)
  note eq = unsubscribeAll_scope_state [OF assms falsy, of n]
  show "subscriptions (snd (unsubscribeAll scope (Str []) st))
                = reg_keep (\<lambda>t. tscope t \<noteq> scope) (subscriptions st)"
    using sc eq by (simp add: keep_tokens_def)
  show "subscriptionTokens (snd (unsubscribeAll scope (Str []) st))
                = filter (\<lambda>t. tscope t \<noteq> scope) (subscriptionTokens st)"
    using sc eq by (simp add: keep_tokens_def)
  show "callbackSubscriptionTokens (snd (unsubscribeAll scope (Str []) st))
                = cb_keep (\<lambda>t. tscope t \<noteq> scope) (callbackSubscriptionTokens st)"
    using sc eq by (simp add: keep_tokens_def)
  show "\<forall>sc. scope_tokens sc (snd (unsubscribeAll scope (Str []) st))
                = filter (\<lambda>t. tscope t \<noteq> scope) (scope_tokens sc st)"
    using sc eq by (simp add: scope_tokens_keep)
next
  assume "scope \<noteq> NoScope \<and> map_of (scopeSubscriptionTokens st) scope \<noteq> None"
  then obtain n ts where sc: "scope = Isolated n"
      "map_of (scopeSubscriptionTokens st) (Isolated n) = Some ts"
    by (cases scope) auto
  have falsy: "\<not> truthy (Str [])" by (simp add: truthy_def)
  show "\<exists>r. fst (unsubscribeAll scope (Str []) st) = Return r"
    using sc(1) unsubscribeAll_scope_keep [OF assms falsy sc(2)] by simp
qed

theorem unsubscribeAll_empty_string_witness:
  "consistent mixed_scopes
   \<and> subscribed_to mixed_scopes = [(js ''x'', [UserFn 0]), (js ''y'', [UserFn 1]), ([], [UserFn 2])]
   \<and> unsubscribeAll NoScope (Str []) mixed_scopes = unsubscribeAll NoScope Undefined mixed_scopes
   \<and> subscribed_to (snd (unsubscribeAll NoScope (Str []) mixed_scopes)) = []
   \<and> unsubscribeAll (Isolated 0) (Str []) mixed_scopes = unsubscribeAll (Isolated 0) Undefined mixed_scopes
   \<and> subscribed_to (snd (unsubscribeAll (Isolated 0) (Str []) mixed_scopes)) = [(js ''x'', [UserFn 0])]"
proof -
  have c: "consistent mixed_scopes" by code_simp
  have before: "subscribed_to mixed_scopes = [(js ''x'', [UserFn 0]), (js ''y'', [UserFn 1]), ([], [UserFn 2])]"
    by code_simp
  have entry: "map_of (scopeSubscriptionTokens mixed_scopes) (Isolated 0) \<noteq> None" by code_simp
  have 1: "map (\<lambda>(key, pattern, callbacks). (key, map snd callbacks))
        (reg_keep (\<lambda>t. tscope t \<noteq> Isolated 0) (subscriptions mixed_scopes)) = [(js ''x'', [UserFn 0])]"
    by code_simp
  have root: "unsubscribeAll NoScope (Str []) mixed_scopes = unsubscribeAll NoScope Undefined mixed_scopes"
    "subscriptions (snd (unsubscribeAll NoScope (Str []) mixed_scopes)) = []"
    using unsubscribeAll_empty_string [OF c, of NoScope] by blast+
  have scoped: "unsubscribeAll (Isolated 0) (Str []) mixed_scopes
        = unsubscribeAll (Isolated 0) Undefined mixed_scopes"
    "subscriptions (snd (unsubscribeAll (Isolated 0) (Str []) mixed_scopes))
        = reg_keep (\<lambda>t. tscope t \<noteq> Isolated 0) (subscriptions mixed_scopes)"
    using unsubscribeAll_empty_string [OF c, of "Isolated 0"] entry by blast+
  show ?thesis
    unfolding subscribed_to_def [of "snd (unsubscribeAll NoScope (Str []) mixed_scopes)"]
      subscribed_to_def [of "snd (unsubscribeAll (Isolated 0) (Str []) mixed_scopes)"]
      root(2) scoped(2) 1
    using c before root(1) scoped(1) by simp
qed

section \<open>Where the code leaves what is said of it\<close>

text \<open>
  C1: \<^verbatim>\<open>unsubscribeAll()\<close> on the facade of a fresh \<^verbatim>\<open>isolate()\<close>, with no topic
  specifier, does not return \<open>false\<close>: the scope has no entry in
  \<^verbatim>\<open>scopeSubscriptionTokens\<close>, and reading \<^verbatim>\<open>values\<close> from the missing entry raises a
  \<^verbatim>\<open>TypeError\<close>. With a topic specifier the same facade returns \<open>false\<close>, whether or
  not the topic has subscribers: that branch tests for the missing entry.
\<close>

theorem unsubscribeAll_fresh_scope_raises:
  "fst (unsubscribeAll (fst (isolate pubsubFactory)) Undefined (snd (isolate pubsubFactory)))
     = Throw TypeError
   \<and> fst (unsubscribeAll (fst (isolate pubsubFactory)) (Str (js ''test'')) (snd (isolate pubsubFactory)))
     = Return False
   \<and> fst (unsubscribeAll (fst (isolate three_on_test)) (Str (js ''test'')) (snd (isolate three_on_test)))
     = Return False"
  by code_simp

text \<open>
  C2: the token of the first of two subscriptions under one key returns \<open>true\<close> when it is
  called a second time: the key still has an entry, held by the other subscription, and
  the token tests the key, not itself. \<^verbatim>\<open>unsubscribe(token)\<close> in the same state returns
  \<open>false\<close>: it tests the set of live tokens.
\<close>

theorem token_second_call_shared_key:
  "fst (subscribe NoScope (Str (js ''a'')) (Fn (UserFn 0)) pubsubFactory)
       = Return (Some (Token 0 NoScope (js ''a'') (UserFn 0)))
   \<and> fst (token_call (Token 0 NoScope (js ''a'') (UserFn 0)) two_on_one_key) = True
   \<and> fst (token_call (Token 0 NoScope (js ''a'') (UserFn 0))
           (snd (token_call (Token 0 NoScope (js ''a'') (UserFn 0)) two_on_one_key))) = True
   \<and> fst (unsubscribe (Fn (TokenFn 0 NoScope (js ''a'') (UserFn 0))) Undefined
           (snd (token_call (Token 0 NoScope (js ''a'') (UserFn 0)) two_on_one_key))) = Return False"
  by code_simp

text \<open>
  C3: after one subscription on the root API and the call of its token, the registry, the
  set of all tokens and the callback index are empty, and the scope index is not: it keeps
  the scope with an empty set of tokens.
\<close>

theorem scope_index_not_pruned:
  "fst (subscribe NoScope (Str (js ''test'')) (Fn (UserFn 0)) pubsubFactory)
       = Return (Some (Token 0 NoScope (js ''test'') (UserFn 0)))
   \<and> snd (token_call (Token 0 NoScope (js ''test'') (UserFn 0))
           (snd (subscribe NoScope (Str (js ''test'')) (Fn (UserFn 0)) pubsubFactory)))
       = pubsubFactory\<lparr>scopeSubscriptionTokens := [(NoScope, [])], nextToken := 1\<rparr>"
  by code_simp

text \<open>
  C4: after \<^verbatim>\<open>subscribeOnce('test', f0)\<close>, two \<^verbatim>\<open>publish('test', null)\<close> in a row (the
  delivery is deferred by default) and the run of the two deferred deliveries, \<open>f0\<close> has
  been called twice: both deliveries hold the wrapper, and the wrapper calls \<open>f0\<close> whether
  or not its token was still subscribed.
\<close>

theorem subscribeOnce_called_twice:
  "calls (runAllTimers returns_normally
     (snd (publish returns_normally (js ''test'') Null False
       (snd (publish returns_normally (js ''test'') Null False
         (snd (subscribeOnce NoScope (Str (js ''test'')) (Fn (UserFn 0)) pubsubFactory)))))))
     = [(0, js ''test'', Null), (0, js ''test'', Null)]"
  by code_simp

text \<open>With synchronous deliveries the second \<^verbatim>\<open>publish\<close> finds no subscriber, and the
  callback has been called once.\<close>

lemma subscribeOnce_synchronous_once:
  "calls (snd (publish returns_normally (js ''test'') Null True
       (snd (publish returns_normally (js ''test'') Null True
         (snd (subscribeOnce NoScope (Str (js ''test'')) (Fn (UserFn 0)) pubsubFactory))))))
     = [(0, js ''test'', Null)]"
  by code_simp

end
